theory Spec2Isabelle
  imports Main "HOL-Library.Monad_Syntax"
begin

section \<open>Runes, white space and display width\<close>

text \<open>
  A Go \<^verbatim>\<open>rune\<close> is a code point, modelled as an integer. \<^verbatim>\<open>unicode.IsSpace\<close> is the
  standard library's predicate: the Latin-1 white space characters and the other code
  points with the Unicode White_Space property.
\<close>

type_synonym rune = int

definition IsSpace :: "rune \<Rightarrow> bool" where
  "IsSpace r \<longleftrightarrow>
     (0x09 \<le> r \<and> r \<le> 0x0D) \<or> r = 0x20 \<or> r = 0x85 \<or> r = 0xA0 \<or> r = 0x1680 \<or>
     (0x2000 \<le> r \<and> r \<le> 0x200A) \<or> r = 0x2028 \<or> r = 0x2029 \<or> r = 0x202F \<or>
     r = 0x205F \<or> r = 0x3000"

text \<open>
  Display widths come from two external packages, and the code uses both: the width of a
  string is \<^verbatim>\<open>uniseg.StringWidth\<close>, which measures grapheme clusters, and the width of a
  single rune is \<^verbatim>\<open>rw.RuneWidth\<close> of go-runewidth. Neither package is part of the repository
  and the two do not agree on every rune, so each is a parameter of every function that
  measures text: \<open>sw\<close> maps a rune sequence to the width \<^verbatim>\<open>uniseg.StringWidth(string(runes))\<close>,
  \<open>rw\<close> maps a rune to \<^verbatim>\<open>rw.RuneWidth(r)\<close>.

  \<open>StringWidth u\<close> is the additive string width with the per-rune widths \<open>u\<close>: what
  \<^verbatim>\<open>uniseg.StringWidth\<close> computes on text in which every rune is a grapheme cluster of its
  own. It instantiates \<open>sw\<close> in the examples.
\<close>

definition StringWidth :: "(rune \<Rightarrow> int) \<Rightarrow> rune list \<Rightarrow> int" where
  "StringWidth u rs = sum_list (map u rs)"

text \<open>
  A width table for evaluating the code on the examples, which are made of printable
  ASCII and CJK ideographs: width 1 for the former and 2 for the East Asian wide ranges
  below, as both packages have it; the last range holds the emoji of the repository's
  test \<^verbatim>\<open>TestCanHandleEmoji\<close>. The table does not reproduce the packages on every other
  rune (combining marks, format characters, emoji sequences), where they have tables of
  their own and differ from each other.
\<close>

definition RuneWidth :: "rune \<Rightarrow> int" where
  "RuneWidth r =
     (if r < 0x20 \<or> (0x7F \<le> r \<and> r < 0xA0) \<or> 0x10FFFF < r then 0
      else if (0x1100 \<le> r \<and> r \<le> 0x115F) \<or> (0x2E80 \<le> r \<and> r \<le> 0x303E) \<or>
              (0x3041 \<le> r \<and> r \<le> 0x4DBF) \<or> (0x4E00 \<le> r \<and> r \<le> 0xA4CF) \<or>
              (0xAC00 \<le> r \<and> r \<le> 0xD7A3) \<or> (0xF900 \<le> r \<and> r \<le> 0xFAFF) \<or>
              (0xFE30 \<le> r \<and> r \<le> 0xFE6F) \<or> (0xFF00 \<le> r \<and> r \<le> 0xFF60) \<or>
              (0xFFE0 \<le> r \<and> r \<le> 0xFFE6) \<or> (0x20000 \<le> r \<and> r \<le> 0x3FFFD) \<or>
              (0x1F947 \<le> r \<and> r \<le> 0x1F9FF) then 2
      else 1)"

text \<open>The runes of an ASCII string literal.\<close>

definition runes_of :: "string \<Rightarrow> rune list" where
  "runes_of s = map of_char s"

definition repeatSpaces :: "int \<Rightarrow> rune list" where
  "repeatSpaces n = replicate (nat n) 0x20"

definition clamp :: "int \<Rightarrow> int \<Rightarrow> int \<Rightarrow> int" where
  "clamp v low high =
     (let (low, high) = (if high < low then (high, low) else (low, high))
      in min high (max low v))"

section \<open>The soft-wrap algorithm\<close>

text \<open>
  The loop of \<^verbatim>\<open>wrap\<close> over the input runes, with its local variables
  \<open>(lines, word, row, spaces)\<close> as the state. One call of \<open>wrap_step\<close> is one iteration of
  the loop body.
\<close>

fun wrap_step ::
  "(rune list \<Rightarrow> int) \<Rightarrow> (rune \<Rightarrow> int) \<Rightarrow> int
     \<Rightarrow> rune list list \<times> rune list \<times> nat \<times> int \<Rightarrow> rune
     \<Rightarrow> rune list list \<times> rune list \<times> nat \<times> int" where
  "wrap_step sw rw width (lines, word, row, spaces) r =
    (let spaces = (if IsSpace r then spaces + 1 else spaces);
         word = (if IsSpace r then word else word @ [r])
     in if spaces > 0 then
          (if sw (lines ! row) + sw word + spaces > width then
             (let row = row + 1;
                  lines = lines @ [[]];
                  lines = lines[row := lines ! row @ word];
                  lines = lines[row := lines ! row @ repeatSpaces spaces]
              in (lines, [], row, 0))
           else
             (let lines = lines[row := lines ! row @ word];
                  lines = lines[row := lines ! row @ repeatSpaces spaces]
              in (lines, [], row, 0)))
        else
          (let lastCharLen = rw (last word) in
           if sw word + lastCharLen > width then
             (let (row, lines) =
                    (if length (lines ! row) > 0 then (row + 1, lines @ [[]]) else (row, lines));
                  lines = lines[row := lines ! row @ word]
              in (lines, [], row, spaces))
           else (lines, word, row, spaces)))"

definition wrap ::
  "(rune list \<Rightarrow> int) \<Rightarrow> (rune \<Rightarrow> int) \<Rightarrow> rune list \<Rightarrow> int \<Rightarrow> rune list list" where
  "wrap sw rw runes width =
    (let (lines, word, row, spaces) = foldl (wrap_step sw rw width) ([[]], [], 0, 0) runes
     in if sw (lines ! row) + sw word + spaces \<ge> width then
          (let lines = lines @ [[]];
               lines = lines[row + 1 := lines ! (row + 1) @ word];
               spaces = spaces + 1;
               lines = lines[row + 1 := lines ! (row + 1) @ repeatSpaces spaces]
           in lines)
        else
          (let lines = lines[row := lines ! row @ word];
               spaces = spaces + 1;
               lines = lines[row := lines ! row @ repeatSpaces spaces]
           in lines))"

text \<open>
  \<open>space_norm\<close> is what \<^verbatim>\<open>wrap\<close> emits for one input rune: white space is counted, and
  \<^verbatim>\<open>repeatSpaces\<close> writes it back as U+0020; any other rune is copied.
\<close>

definition space_norm :: "rune \<Rightarrow> rune" where
  "space_norm r = (if IsSpace r then 0x20 else r)"

text \<open>
  Invariants of the loop: \<open>row\<close> indexes the last line and no space is pending
  (\<open>wrap_shape\<close>); the text emitted so far (\<open>wrap_text\<close>); every finished line fits or is
  a lone word, and the pending word is narrower than the width (\<open>wrap_bounded\<close>), all of
  them made of runes of the set \<open>A\<close>.
\<close>

definition wrap_shape :: "rune list list \<times> rune list \<times> nat \<times> int \<Rightarrow> bool" where
  "wrap_shape st \<longleftrightarrow>
     (case st of (ls, wd, row, sp) \<Rightarrow> ls \<noteq> [] \<and> row = length ls - 1 \<and> sp = 0)"

definition wrap_text :: "rune list list \<times> rune list \<times> nat \<times> int \<Rightarrow> rune list" where
  "wrap_text st = (case st of (ls, wd, row, sp) \<Rightarrow> concat ls @ wd)"

definition wrap_fits :: "(rune list \<Rightarrow> int) \<Rightarrow> int \<Rightarrow> rune list \<Rightarrow> bool" where
  "wrap_fits sw width l \<longleftrightarrow>
     sw l \<le> width \<or> (width < sw l \<and> (\<forall>r\<in>set l. \<not> IsSpace r))"

definition wrap_bounded ::
  "(rune list \<Rightarrow> int) \<Rightarrow> rune set \<Rightarrow> int \<Rightarrow> rune list list \<times> rune list \<times> nat \<times> int
     \<Rightarrow> bool" where
  "wrap_bounded sw A width st \<longleftrightarrow>
     (case st of (ls, wd, row, sp) \<Rightarrow>
        (\<forall>l\<in>set ls. wrap_fits sw width l \<and> set l \<subseteq> A) \<and> sw wd \<le> width - 1 \<and>
        (\<forall>r\<in>set wd. \<not> IsSpace r) \<and> set wd \<subseteq> A)"

text \<open>The runes that \<open>wrap\<close> can emit for an input: its non-space runes and U+0020.\<close>

definition emitted :: "rune list \<Rightarrow> rune set" where
  "emitted s = insert 0x20 (set (filter (\<lambda>r. \<not> IsSpace r) s))"

section \<open>The memoization cache\<close>

text \<open>
  \<^verbatim>\<open>MemoCache\<close> keeps a map from hashed keys to the elements of a doubly linked list
  (\<^verbatim>\<open>container/list\<close>). The elements are shared between the map and the list, so the model
  has an explicit store: \<open>entries\<close> holds every \<^verbatim>\<open>entry\<close> ever allocated, an element is the
  index of its entry, \<open>evictionList\<close> lists the elements front first, and \<open>cache\<close> maps a
  hashed key to its element. \<open>'h\<close> is the type of hashed keys.
\<close>

record ('h, 'v) MemoCache =
  capacity :: int
  cache :: "'h \<rightharpoonup> nat"
  evictionList :: "nat list"
  entries :: "('h \<times> 'v) list"
  hashableItems :: "'h \<rightharpoonup> 'v"

definition NewMemoCache :: "int \<Rightarrow> ('h, 'v) MemoCache" where
  "NewMemoCache cap =
     \<lparr>capacity = cap, cache = Map.empty, evictionList = [], entries = [],
      hashableItems = Map.empty\<rparr>"

definition Capacity :: "('h, 'v) MemoCache \<Rightarrow> int" where
  "Capacity m = capacity m"

definition Size :: "('h, 'v) MemoCache \<Rightarrow> int" where
  "Size m = int (length (evictionList m))"

text \<open>
  The list operations used by the cache: \<^verbatim>\<open>MoveToFront\<close> leaves the list alone when the
  element is not in it, \<^verbatim>\<open>Back\<close> is \<^verbatim>\<open>nil\<close> on the empty list.
\<close>

definition MoveToFront :: "nat \<Rightarrow> nat list \<Rightarrow> nat list" where
  "MoveToFront e l = (if e \<in> set l then e # remove1 e l else l)"

definition Back :: "nat list \<Rightarrow> nat option" where
  "Back l = (if l = [] then None else Some (last l))"

text \<open>
  \<^verbatim>\<open>Get\<close> returns the value and the found flag as an option (\<open>None\<close> is the zero value
  with \<^verbatim>\<open>false\<close>), together with the cache after the call. The hash function of the key
  type is the parameter \<open>Hash\<close>.
\<close>

definition Get ::
  "('k \<Rightarrow> 'h) \<Rightarrow> ('h, 'v) MemoCache \<Rightarrow> 'k \<Rightarrow> 'v option \<times> ('h, 'v) MemoCache" where
  "Get Hash m h =
     (let hashedKey = Hash h in
      case cache m hashedKey of
        Some element \<Rightarrow>
          (Some (snd (entries m ! element)),
           m\<lparr>evictionList := MoveToFront element (evictionList m)\<rparr>)
      | None \<Rightarrow> (None, m))"

definition Set ::
  "('k \<Rightarrow> 'h) \<Rightarrow> ('h, 'v) MemoCache \<Rightarrow> 'k \<Rightarrow> 'v \<Rightarrow> ('h, 'v) MemoCache" where
  "Set Hash m h v =
     (let hashedKey = Hash h in
      case cache m hashedKey of
        Some element \<Rightarrow>
          m\<lparr>evictionList := MoveToFront element (evictionList m),
            entries := (entries m)[element := (fst (entries m ! element), v)]\<rparr>
      | None \<Rightarrow>
          (let m = (if int (length (evictionList m)) \<ge> capacity m then
                      (case Back (evictionList m) of
                         Some toEvict \<Rightarrow>
                           (let evictedEntry = entries m ! toEvict in
                            m\<lparr>evictionList := remove1 toEvict (evictionList m),
                              cache := (cache m)(fst evictedEntry := None),
                              hashableItems := (hashableItems m)(fst evictedEntry := None)\<rparr>)
                       | None \<Rightarrow> m)
                    else m);
               element = length (entries m)
           in m\<lparr>entries := entries m @ [(hashedKey, v)],
                evictionList := element # evictionList m,
                cache := (cache m)(hashedKey \<mapsto> element),
                hashableItems := (hashableItems m)(hashedKey \<mapsto> v)\<rparr>))"

text \<open>
  A history of cache operations, most recent first, and the cache it leaves when run on a
  new cache of the given capacity.
\<close>

datatype ('k, 'v) cacheAction = DoGet 'k | DoSet 'k 'v

fun apply_action ::
  "('k \<Rightarrow> 'h) \<Rightarrow> ('h, 'v) MemoCache \<Rightarrow> ('k, 'v) cacheAction \<Rightarrow> ('h, 'v) MemoCache" where
  "apply_action Hash m (DoGet k) = snd (Get Hash m k)"
| "apply_action Hash m (DoSet k v) = Set Hash m k v"

fun after_history ::
  "('k \<Rightarrow> 'h) \<Rightarrow> int \<Rightarrow> ('k, 'v) cacheAction list \<Rightarrow> ('h, 'v) MemoCache" where
  "after_history Hash cap [] = NewMemoCache cap"
| "after_history Hash cap (a # older) = apply_action Hash (after_history Hash cap older) a"

text \<open>The value of the most recent \<^verbatim>\<open>Set\<close> for a key in a history.\<close>

fun last_set :: "('k, 'v) cacheAction list \<Rightarrow> 'k \<Rightarrow> 'v option" where
  "last_set [] k = None"
| "last_set (DoGet k' # older) k = last_set older k"
| "last_set (DoSet k' v # older) k = (if k' = k then Some v else last_set older k)"

text \<open>
  The hashed key of the entry that an action evicts from a cache, if it evicts one: the
  key of \<^verbatim>\<open>toEvict\<close> in the branch of \<^verbatim>\<open>Set\<close> that deletes it from the map.
\<close>

definition evicted_by ::
  "('k \<Rightarrow> 'h) \<Rightarrow> ('h, 'v) MemoCache \<Rightarrow> ('k, 'v) cacheAction \<Rightarrow> 'h option" where
  "evicted_by Hash m a =
     (case a of
        DoGet k \<Rightarrow> None
      | DoSet k v \<Rightarrow>
          (case cache m (Hash k) of
             Some element \<Rightarrow> None
           | None \<Rightarrow>
               if int (length (evictionList m)) \<ge> capacity m
               then map_option (\<lambda>toEvict. fst (entries m ! toEvict)) (Back (evictionList m))
               else None))"

text \<open>
  A key is resident after a history when it has been set and its entry has not been
  evicted since the most recent \<^verbatim>\<open>Set\<close> for it.
\<close>

fun resident :: "('k \<Rightarrow> 'h) \<Rightarrow> int \<Rightarrow> ('k, 'v) cacheAction list \<Rightarrow> 'k \<Rightarrow> bool" where
  "resident Hash cap [] k = False"
| "resident Hash cap (DoGet k' # older) k = resident Hash cap older k"
| "resident Hash cap (DoSet k' v # older) k =
     (k' = k \<or>
      (resident Hash cap older k \<and>
       evicted_by Hash (after_history Hash cap older) (DoSet k' v) \<noteq> Some (Hash k)))"

text \<open>
  The time of the most recent \<^verbatim>\<open>Get\<close> or \<^verbatim>\<open>Set\<close> that names a hashed key, counting the
  actions of a history from 1; 0 when no action names it.
\<close>

fun action_key :: "('k, 'v) cacheAction \<Rightarrow> 'k" where
  "action_key (DoGet k) = k"
| "action_key (DoSet k v) = k"

fun last_touch :: "('k \<Rightarrow> 'h) \<Rightarrow> ('k, 'v) cacheAction list \<Rightarrow> 'h \<Rightarrow> nat" where
  "last_touch Hash [] h = 0"
| "last_touch Hash (a # older) h =
     (if Hash (action_key a) = h then Suc (length older) else last_touch Hash older h)"

text \<open>The hashed keys held by the cache, most recently used first.\<close>

definition cache_keys :: "('h, 'v) MemoCache \<Rightarrow> 'h list" where
  "cache_keys m = map (\<lambda>e. fst (entries m ! e)) (evictionList m)"

subsection \<open>Invariant and reference model of the cache\<close>

text \<open>
  \<open>cache_assoc\<close> reads the cache as the list of its entries, most recently used first.
  \<open>cache_inv\<close> is the representation invariant: the list has no element twice, every
  element is allocated, no hashed key occurs twice, and the map holds exactly the elements
  of the list under their keys.
\<close>

definition cache_assoc :: "('h, 'v) MemoCache \<Rightarrow> ('h \<times> 'v) list" where
  "cache_assoc m = map (\<lambda>e. entries m ! e) (evictionList m)"

definition cache_inv :: "('h, 'v) MemoCache \<Rightarrow> bool" where
  "cache_inv m \<longleftrightarrow>
     distinct (evictionList m) \<and>
     (\<forall>e\<in>set (evictionList m). e < length (entries m)) \<and>
     distinct (map fst (cache_assoc m)) \<and>
     (\<forall>h e. MemoCache.cache m h = Some e \<longrightarrow>
        e \<in> set (evictionList m) \<and> fst (entries m ! e) = h) \<and>
     (\<forall>e\<in>set (evictionList m). MemoCache.cache m (fst (entries m ! e)) = Some e)"

text \<open>
  The least-recently-used list of the specification: a hit moves the entry to the front,
  \<open>set\<close> replaces or inserts at the front, and a new key at capacity drops the back entry
  first.
\<close>

definition lru_touch :: "'h \<Rightarrow> 'v \<Rightarrow> ('h \<times> 'v) list \<Rightarrow> ('h \<times> 'v) list" where
  "lru_touch h v l = (h, v) # filter (\<lambda>p. fst p \<noteq> h) l"

definition lru_get :: "'h \<Rightarrow> ('h \<times> 'v) list \<Rightarrow> 'v option \<times> ('h \<times> 'v) list" where
  "lru_get h l = (case map_of l h of Some v \<Rightarrow> (Some v, lru_touch h v l) | None \<Rightarrow> (None, l))"

definition lru_set :: "int \<Rightarrow> 'h \<Rightarrow> 'v \<Rightarrow> ('h \<times> 'v) list \<Rightarrow> ('h \<times> 'v) list" where
  "lru_set cap h v l =
     (if h \<in> fst ` set l then lru_touch h v l
      else (h, v) # (if cap \<le> int (length l) \<and> l \<noteq> [] then butlast l else l))"

text \<open>A list of hashed keys is in recency order: later touched keys come first.\<close>

definition recency_sorted :: "('k \<Rightarrow> 'h) \<Rightarrow> ('k, 'v) cacheAction list \<Rightarrow> 'h list \<Rightarrow> bool" where
  "recency_sorted Hash hist hs \<longleftrightarrow>
     sorted_wrt (\<lambda>h h'. last_touch Hash hist h' < last_touch Hash hist h) hs"

text \<open>The history that sets the keys \<open>1, \<dots>, n\<close> in this order (most recent first).\<close>

definition fill_history :: "(nat \<Rightarrow> 'v) \<Rightarrow> nat \<Rightarrow> (nat, 'v) cacheAction list" where
  "fill_history val n = map (\<lambda>i. DoSet i (val i)) (rev [1..<Suc n])"

section \<open>The text area model\<close>

text \<open>
  Go slices: an index or a slice bound out of range is a run-time panic, modelled as
  \<open>None\<close>. Every function of the text area that reads the buffer returns an option for
  that reason.
\<close>

definition len :: "'a list \<Rightarrow> int" where
  "len xs = int (length xs)"

definition elem_at :: "'a list \<Rightarrow> int \<Rightarrow> 'a option" where
  "elem_at xs i = (if 0 \<le> i \<and> i < len xs then Some (xs ! nat i) else None)"

definition slice_from :: "'a list \<Rightarrow> int \<Rightarrow> 'a list option" where
  "slice_from xs i = (if 0 \<le> i \<and> i \<le> len xs then Some (drop (nat i) xs) else None)"

definition slice_to :: "'a list \<Rightarrow> int \<Rightarrow> 'a list option" where
  "slice_to xs i = (if 0 \<le> i \<and> i \<le> len xs then Some (take (nat i) xs) else None)"

definition minHeight :: int where
  "minHeight = 1"

definition maxLines :: int where
  "maxLines = 10000"

text \<open>
  The cache of the text area is keyed by the \<^verbatim>\<open>line\<close> struct (runes and width). Its
  \<^verbatim>\<open>Hash\<close> formats \<^verbatim>\<open>string(w.runes)\<close> and the width as \<^verbatim>\<open>"%s:%d"\<close> and takes the SHA-256
  fingerprint of that. The conversion \<^verbatim>\<open>string(runes)\<close> writes U+FFFD for every rune that
  is not a valid code point (a surrogate half or a value out of range), so two lines
  that differ only in such runes have the same hash. The formatting is injective and
  SHA-256 is taken as free of collisions: the hashed key is modelled as the converted
  runes with the width.
\<close>

definition string_rune :: "rune \<Rightarrow> rune" where
  "string_rune r =
     (if (0 \<le> r \<and> r < 0xD800) \<or> (0xE000 \<le> r \<and> r \<le> 0x10FFFF) then r else 0xFFFD)"

definition line_Hash :: "rune list \<times> int \<Rightarrow> rune list \<times> int" where
  "line_Hash w = (map string_rune (fst w), snd w)"

record Model =
  cache :: "(rune list \<times> int, rune list list) MemoCache"
  CharLimit :: int
  MaxHeight :: int
  width :: int
  value' :: "rune list list"
  col :: int
  row :: int
  lastCharOffset :: int

record LineInfo =
  Width :: int
  CharWidth :: int
  Height :: int
  StartColumn :: int
  ColumnOffset :: int
  RowOffset :: int
  CharOffset :: int

definition cur_line :: "Model \<Rightarrow> rune list option" where
  "cur_line m = elem_at (value' m) (row m)"

definition set_line :: "Model \<Rightarrow> rune list \<Rightarrow> Model" where
  "set_line m l = m\<lparr>value' := (value' m)[nat (row m) := l]\<rparr>"

definition SetCursor :: "Model \<Rightarrow> int \<Rightarrow> Model option" where
  "SetCursor m c =
     do { l \<leftarrow> cur_line m;
          Some (m\<lparr>col := clamp c 0 (len l), lastCharOffset := 0\<rparr>) }"

definition CursorStart :: "Model \<Rightarrow> Model option" where
  "CursorStart m = SetCursor m 0"

definition CursorEnd :: "Model \<Rightarrow> Model option" where
  "CursorEnd m = do { l \<leftarrow> cur_line m; SetCursor m (len l) }"

definition Reset :: "Model \<Rightarrow> Model option" where
  "Reset m = SetCursor (m\<lparr>value' := replicate (nat minHeight) [], col := 0, row := 0\<rparr>) 0"

definition Length :: "(rune list \<Rightarrow> int) \<Rightarrow> Model \<Rightarrow> int" where
  "Length sw m = foldl (\<lambda>l r. l + sw r) 0 (value' m) + len (value' m) - 1"

subsection \<open>Sanitizing and inserting runes\<close>

definition IsControl :: "rune \<Rightarrow> bool" where
  "IsControl r \<longleftrightarrow> (0 \<le> r \<and> r \<le> 0x1F) \<or> (0x7F \<le> r \<and> r \<le> 0x9F)"

definition RuneError :: rune where
  "RuneError = 0xFFFD"

definition Sanitize :: "rune list \<Rightarrow> rune list" where
  "Sanitize rs =
     concat (map (\<lambda>r. if r = RuneError then []
                      else if r = 0x0D \<or> r = 0x0A then [0x0A]
                      else if r = 0x09 then [0x20, 0x20, 0x20, 0x20]
                      else if IsControl r then []
                      else [r]) rs)"

text \<open>
  The loop of \<^verbatim>\<open>insertRunesFromUserInput\<close> that splits the input at newlines; \<open>cur\<close> holds
  the runes since \<^verbatim>\<open>lstart\<close>.
\<close>

fun split_lines :: "rune list \<Rightarrow> rune list \<Rightarrow> rune list list" where
  "split_lines cur [] = [cur]"
| "split_lines cur (r # rs) =
     (if r = 0x0A then cur # split_lines [] rs else split_lines (cur @ [r]) rs)"

text \<open>
  \<^verbatim>\<open>insertRunesFromUserInput\<close> in two parts: \<open>insert_lines\<close> is the second half of the
  function, which pastes the non-empty list of lines at the cursor; the first half
  sanitizes the input, applies the character limit, splits at newlines and applies the
  limit on the number of lines.
\<close>

definition insert_lines :: "Model \<Rightarrow> rune list list \<Rightarrow> Model option" where
  "insert_lines m lines =
     do { l \<leftarrow> cur_line m;
          tail \<leftarrow> slice_from l (col m);
          head \<leftarrow> slice_to l (col m);
          let m = set_line m (head @ hd lines);
          let m = m\<lparr>col := col m + len (hd lines)\<rparr>;
          let numExtraLines = len lines - 1;
          let m =
            (if numExtraLines > 0 then
               (let newGrid = take (nat (row m + 1)) (value' m) @
                              replicate (nat numExtraLines) [] @
                              drop (nat (row m + 1)) (value' m);
                    m = m\<lparr>value' := newGrid\<rparr>
                in foldl (\<lambda>m l. (set_line (m\<lparr>row := row m + 1\<rparr>) l)\<lparr>col := len l\<rparr>)
                     m (tl lines))
             else m);
          l \<leftarrow> cur_line m;
          let m = set_line m (l @ tail);
          SetCursor m (col m) }"

definition insertRunesFromUserInput ::
  "(rune list \<Rightarrow> int) \<Rightarrow> Model \<Rightarrow> rune list \<Rightarrow> Model option" where
  "insertRunesFromUserInput sw m rs =
     (let rs = Sanitize rs;
          availSpace = CharLimit m - Length sw m
      in if CharLimit m > 0 \<and> availSpace \<le> 0 then Some m
         else
          (let rs = (if CharLimit m > 0 \<and> availSpace < len rs then take (nat availSpace) rs else rs);
               lines = split_lines [] rs;
               lines = (if maxLines > 0 \<and> len (value' m) + len lines - 1 > maxLines
                        then take (nat (max 0 (maxLines - len (value' m) + 1))) lines
                        else lines)
           in if len lines = 0 then Some m else insert_lines m lines))"

subsection \<open>Deleting\<close>

definition deleteBeforeCursor :: "Model \<Rightarrow> Model option" where
  "deleteBeforeCursor m =
     do { l \<leftarrow> cur_line m;
          t \<leftarrow> slice_from l (col m);
          SetCursor (set_line m t) 0 }"

definition deleteAfterCursor :: "Model \<Rightarrow> Model option" where
  "deleteAfterCursor m =
     do { l \<leftarrow> cur_line m;
          h \<leftarrow> slice_to l (col m);
          SetCursor (set_line m h) (len h) }"

text \<open>The two scanning loops of \<^verbatim>\<open>deleteWordLeft\<close>.\<close>

function deleteWordLeft_spaces :: "Model \<Rightarrow> Model option" where
  "deleteWordLeft_spaces m =
     (case cur_line m of
        None \<Rightarrow> None
      | Some l \<Rightarrow>
          (case elem_at l (col m) of
             None \<Rightarrow> None
           | Some r \<Rightarrow>
               if IsSpace r then
                 (if col m \<le> 0 then Some m
                  else (case SetCursor m (col m - 1) of
                          None \<Rightarrow> None
                        | Some m' \<Rightarrow> deleteWordLeft_spaces m'))
               else Some m))"
  by pat_completeness auto
termination
  by (relation "measure (\<lambda>m. nat (col m))")
     (auto simp: SetCursor_def cur_line_def elem_at_def clamp_def len_def split: if_splits)

function deleteWordLeft_word :: "Model \<Rightarrow> Model option" where
  "deleteWordLeft_word m =
     (if col m > 0 then
        (case cur_line m of
           None \<Rightarrow> None
         | Some l \<Rightarrow>
             (case elem_at l (col m) of
                None \<Rightarrow> None
              | Some r \<Rightarrow>
                  if \<not> IsSpace r then
                    (case SetCursor m (col m - 1) of
                       None \<Rightarrow> None
                     | Some m' \<Rightarrow> deleteWordLeft_word m')
                  else (if col m > 0 then SetCursor m (col m + 1) else Some m)))
      else Some m)"
  by pat_completeness auto
termination
  by (relation "measure (\<lambda>m. nat (col m))")
     (auto simp: SetCursor_def cur_line_def elem_at_def clamp_def len_def split: if_splits)

definition deleteWordLeft :: "Model \<Rightarrow> Model option" where
  "deleteWordLeft m =
     (if col m = 0 then Some m
      else
        do { l \<leftarrow> cur_line m;
             if len l = 0 then Some m
             else
               do { let oldCol = col m;
                    m \<leftarrow> SetCursor m (col m - 1);
                    m \<leftarrow> deleteWordLeft_spaces m;
                    m \<leftarrow> deleteWordLeft_word m;
                    l \<leftarrow> cur_line m;
                    if oldCol > len l then
                      do { h \<leftarrow> slice_to l (col m); Some (set_line m h) }
                    else
                      do { h \<leftarrow> slice_to l (col m);
                           t \<leftarrow> slice_from l oldCol;
                           Some (set_line m (h @ t)) } } })"

text \<open>The two scanning loops of \<^verbatim>\<open>deleteWordRight\<close>.\<close>

function deleteWordRight_spaces :: "Model \<Rightarrow> Model option" where
  "deleteWordRight_spaces m =
     (case cur_line m of
        None \<Rightarrow> None
      | Some l \<Rightarrow>
          if col m < len l then
            (case elem_at l (col m) of
               None \<Rightarrow> None
             | Some r \<Rightarrow>
                 if IsSpace r then
                   (case SetCursor m (col m + 1) of
                      None \<Rightarrow> None
                    | Some m' \<Rightarrow> deleteWordRight_spaces m')
                 else Some m)
          else Some m)"
  by pat_completeness auto
termination
  by (relation "measure (\<lambda>m. case cur_line m of None \<Rightarrow> 0 | Some l \<Rightarrow> nat (len l - col m))")
     (auto simp: SetCursor_def cur_line_def elem_at_def clamp_def len_def split: if_splits)

function deleteWordRight_word :: "Model \<Rightarrow> Model option" where
  "deleteWordRight_word m =
     (case cur_line m of
        None \<Rightarrow> None
      | Some l \<Rightarrow>
          if col m < len l then
            (case elem_at l (col m) of
               None \<Rightarrow> None
             | Some r \<Rightarrow>
                 if \<not> IsSpace r then
                   (case SetCursor m (col m + 1) of
                      None \<Rightarrow> None
                    | Some m' \<Rightarrow> deleteWordRight_word m')
                 else Some m)
          else Some m)"
  by pat_completeness auto
termination
  by (relation "measure (\<lambda>m. case cur_line m of None \<Rightarrow> 0 | Some l \<Rightarrow> nat (len l - col m))")
     (auto simp: SetCursor_def cur_line_def elem_at_def clamp_def len_def split: if_splits)

definition deleteWordRight :: "Model \<Rightarrow> Model option" where
  "deleteWordRight m =
     do { l \<leftarrow> cur_line m;
          if col m \<ge> len l \<or> len l = 0 then Some m
          else
            do { let oldCol = col m;
                 m \<leftarrow> deleteWordRight_spaces m;
                 m \<leftarrow> deleteWordRight_word m;
                 l \<leftarrow> cur_line m;
                 m \<leftarrow> (if col m > len l then
                         do { h \<leftarrow> slice_to l oldCol; Some (set_line m h) }
                       else
                         do { h \<leftarrow> slice_to l oldCol;
                              t \<leftarrow> slice_from l (col m);
                              Some (set_line m (h @ t)) });
                 SetCursor m oldCol } }"

subsection \<open>Merging and splitting lines\<close>

text \<open>The loop that moves every line after \<open>i\<close> up by one.\<close>

function shift_lines :: "'a list \<Rightarrow> int \<Rightarrow> 'a list" where
  "shift_lines v i =
     (if i < len v - 1 then shift_lines (v[nat i := v ! nat (i + 1)]) (i + 1) else v)"
  by pat_completeness auto
termination
  by (relation "measure (\<lambda>(v, i). nat (len v - i))") (auto simp: len_def)

definition drop_last_line :: "'a list \<Rightarrow> 'a list" where
  "drop_last_line v = (if len v > 0 then take (nat (len v - 1)) v else v)"

definition mergeLineBelow :: "Model \<Rightarrow> int \<Rightarrow> Model option" where
  "mergeLineBelow m r =
     (if r \<ge> len (value' m) - 1 then Some m
      else
        do { a \<leftarrow> elem_at (value' m) r;
             b \<leftarrow> elem_at (value' m) (r + 1);
             let v = (value' m)[nat r := a @ b];
             let v = shift_lines v (r + 1);
             Some (m\<lparr>value' := drop_last_line v\<rparr>) })"

definition mergeLineAbove :: "Model \<Rightarrow> int \<Rightarrow> Model option" where
  "mergeLineAbove m r =
     (if r \<le> 0 then Some m
      else
        do { a \<leftarrow> elem_at (value' m) (r - 1);
             let m = m\<lparr>col := len a, row := row m - 1\<rparr>;
             b \<leftarrow> elem_at (value' m) r;
             let v = (value' m)[nat (r - 1) := a @ b];
             let v = shift_lines v r;
             Some (m\<lparr>value' := drop_last_line v\<rparr>) })"

definition splitLine :: "Model \<Rightarrow> int \<Rightarrow> int \<Rightarrow> Model option" where
  "splitLine m r c =
     do { l \<leftarrow> elem_at (value' m) r;
          head \<leftarrow> slice_to l c;
          tailSrc \<leftarrow> slice_from l c;
          let tail = tailSrc;
          let v = take (nat (r + 1)) (value' m) @ drop (nat r) (value' m);
          let v = v[nat r := head];
          let v = v[nat (r + 1) := tail];
          Some (m\<lparr>value' := v, col := 0, row := row m + 1\<rparr>) }"

subsection \<open>The deleting and line-breaking cases of Update\<close>

definition Update_DeleteAfterCursor :: "Model \<Rightarrow> Model option" where
  "Update_DeleteAfterCursor m =
     do { l \<leftarrow> cur_line m;
          let m = m\<lparr>col := clamp (col m) 0 (len l)\<rparr>;
          if col m \<ge> len l then mergeLineBelow m (row m) else deleteAfterCursor m }"

definition Update_DeleteBeforeCursor :: "Model \<Rightarrow> Model option" where
  "Update_DeleteBeforeCursor m =
     do { l \<leftarrow> cur_line m;
          let m = m\<lparr>col := clamp (col m) 0 (len l)\<rparr>;
          if col m \<le> 0 then mergeLineAbove m (row m) else deleteBeforeCursor m }"

definition Update_DeleteCharacterBackward :: "Model \<Rightarrow> Model option" where
  "Update_DeleteCharacterBackward m =
     do { l \<leftarrow> cur_line m;
          let m = m\<lparr>col := clamp (col m) 0 (len l)\<rparr>;
          if col m \<le> 0 then mergeLineAbove m (row m)
          else if len l > 0 then
            do { h \<leftarrow> slice_to l (max 0 (col m - 1));
                 t \<leftarrow> slice_from l (col m);
                 let m = set_line m (h @ t);
                 if col m > 0 then SetCursor m (col m - 1) else Some m }
          else Some m }"

definition Update_DeleteCharacterForward :: "Model \<Rightarrow> Model option" where
  "Update_DeleteCharacterForward m =
     do { l \<leftarrow> cur_line m;
          m \<leftarrow> (if len l > 0 \<and> col m < len l then
                  do { h \<leftarrow> slice_to l (col m);
                       t \<leftarrow> slice_from l (col m + 1);
                       Some (set_line m (h @ t)) }
                else Some m);
          l \<leftarrow> cur_line m;
          if col m \<ge> len l then mergeLineBelow m (row m) else Some m }"

definition Update_DeleteWordBackward :: "Model \<Rightarrow> Model option" where
  "Update_DeleteWordBackward m =
     (if col m \<le> 0 then mergeLineAbove m (row m) else deleteWordLeft m)"

definition Update_DeleteWordForward :: "Model \<Rightarrow> Model option" where
  "Update_DeleteWordForward m =
     do { l \<leftarrow> cur_line m;
          let m = m\<lparr>col := clamp (col m) 0 (len l)\<rparr>;
          if col m \<ge> len l then mergeLineBelow m (row m) else deleteWordRight m }"

definition Update_InsertNewline :: "Model \<Rightarrow> Model option" where
  "Update_InsertNewline m =
     (if MaxHeight m > 0 \<and> len (value' m) \<ge> MaxHeight m then Some m
      else
        do { l \<leftarrow> cur_line m;
             let m = m\<lparr>col := clamp (col m) 0 (len l)\<rparr>;
             splitLine m (row m) (col m) })"

subsection \<open>Moving by characters and words\<close>

definition characterRight :: "Model \<Rightarrow> Model option" where
  "characterRight m =
     do { l \<leftarrow> cur_line m;
          if col m < len l then SetCursor m (col m + 1)
          else if row m < len (value' m) - 1 then CursorStart (m\<lparr>row := row m + 1\<rparr>)
          else Some m }"

definition characterLeft :: "Model \<Rightarrow> bool \<Rightarrow> Model option" where
  "characterLeft m insideLine =
     do { (m, return) \<leftarrow>
            (if col m = 0 \<and> row m \<noteq> 0 then
               do { m \<leftarrow> CursorEnd (m\<lparr>row := row m - 1\<rparr>); Some (m, \<not> insideLine) }
             else Some (m, False));
          if return then Some m
          else if col m > 0 then SetCursor m (col m - 1)
          else Some m }"

text \<open>
  The first loop of \<^verbatim>\<open>wordLeft\<close> has no bound of its own, so it is a partial function:
  the outer \<open>None\<close> says that the loop never exits, the inner option is the panic.
\<close>

partial_function (option) wordLeft_scan :: "Model \<Rightarrow> Model option option" where
  "wordLeft_scan m =
     (case characterLeft m True of
        None \<Rightarrow> Some None
      | Some m \<Rightarrow>
          (case cur_line m of
             None \<Rightarrow> Some None
           | Some l \<Rightarrow>
               if col m < len l then
                 (case elem_at l (col m) of
                    None \<Rightarrow> Some None
                  | Some r \<Rightarrow> if \<not> IsSpace r then Some (Some m) else wordLeft_scan m)
               else wordLeft_scan m))"

function wordLeft_word :: "Model \<Rightarrow> Model option" where
  "wordLeft_word m =
     (if col m > 0 then
        (case cur_line m of
           None \<Rightarrow> None
         | Some l \<Rightarrow>
             (case elem_at l (col m - 1) of
                None \<Rightarrow> None
              | Some r \<Rightarrow>
                  if IsSpace r then Some m
                  else (case SetCursor m (col m - 1) of
                          None \<Rightarrow> None
                        | Some m' \<Rightarrow> wordLeft_word m')))
      else Some m)"
  by pat_completeness auto
termination
  by (relation "measure (\<lambda>m. nat (col m))")
     (auto simp: SetCursor_def cur_line_def elem_at_def clamp_def len_def split: if_splits)

definition wordLeft :: "Model \<Rightarrow> Model option option" where
  "wordLeft m =
     (case wordLeft_scan m of
        None \<Rightarrow> None
      | Some None \<Rightarrow> Some None
      | Some (Some m) \<Rightarrow> Some (wordLeft_word m))"

text \<open>
  \<^verbatim>\<open>doWordRight\<close> with its callback \<open>fn\<close>, which may change the model. Both loops are
  partial functions, with the same reading of the result as for \<open>wordLeft_scan\<close>.
\<close>

partial_function (option) doWordRight_skip :: "Model \<Rightarrow> Model option option" where
  "doWordRight_skip m =
     (case cur_line m of
        None \<Rightarrow> Some None
      | Some l \<Rightarrow>
          if col m \<ge> len l then
            (if row m = len (value' m) - 1 \<and> col m = len l then Some (Some m)
             else (case characterRight m of
                     None \<Rightarrow> Some None
                   | Some m \<Rightarrow> doWordRight_skip m))
          else
            (case elem_at l (col m) of
               None \<Rightarrow> Some None
             | Some r \<Rightarrow>
                 if IsSpace r then
                   (if row m = len (value' m) - 1 \<and> col m = len l then Some (Some m)
                    else (case characterRight m of
                            None \<Rightarrow> Some None
                          | Some m \<Rightarrow> doWordRight_skip m))
                 else Some (Some m)))"

partial_function (option) doWordRight_word ::
  "(int \<Rightarrow> int \<Rightarrow> Model \<Rightarrow> Model option) \<Rightarrow> int \<Rightarrow> Model \<Rightarrow> Model option option" where
  "doWordRight_word fn charIdx m =
     (case cur_line m of
        None \<Rightarrow> Some None
      | Some l \<Rightarrow>
          if col m < len l then
            (case elem_at l (col m) of
               None \<Rightarrow> Some None
             | Some r \<Rightarrow>
                 if IsSpace r then Some (Some m)
                 else (case fn charIdx (col m) m of
                         None \<Rightarrow> Some None
                       | Some m \<Rightarrow>
                           (case SetCursor m (col m + 1) of
                              None \<Rightarrow> Some None
                            | Some m \<Rightarrow> doWordRight_word fn (charIdx + 1) m)))
          else Some (Some m))"

definition doWordRight ::
  "(int \<Rightarrow> int \<Rightarrow> Model \<Rightarrow> Model option) \<Rightarrow> Model \<Rightarrow> Model option option" where
  "doWordRight fn m =
     (case doWordRight_skip m of
        None \<Rightarrow> None
      | Some None \<Rightarrow> Some None
      | Some (Some m) \<Rightarrow> doWordRight_word fn 0 m)"

definition wordRight :: "Model \<Rightarrow> Model option option" where
  "wordRight m = doWordRight (\<lambda>charIdx pos m. Some m) m"

subsection \<open>Line information and vertical movement\<close>

text \<open>
  \<^verbatim>\<open>memoizedWrap\<close> goes through the cache, which \<^verbatim>\<open>Model\<close> holds by pointer: the model
  returns the cache after the call next to the wrapped lines.
\<close>

definition memoizedWrap ::
  "(rune list \<Rightarrow> int) \<Rightarrow> (rune \<Rightarrow> int) \<Rightarrow> Model \<Rightarrow> rune list \<Rightarrow> int
     \<Rightarrow> rune list list \<times> (rune list \<times> int, rune list list) MemoCache" where
  "memoizedWrap sw rw m rs w =
     (let input = (rs, w) in
      case Get line_Hash (cache m) input of
        (Some v, c) \<Rightarrow> (v, c)
      | (None, c) \<Rightarrow> (let v = wrap sw rw rs w in (v, Set line_Hash c input v)))"

text \<open>
  The loop of \<^verbatim>\<open>LineInfo\<close> over the wrapped lines \<open>grid\<close>, from index \<open>i\<close> with the first
  \<open>i\<close> lines summed up in \<open>counter\<close>; \<open>rest\<close> holds the lines from \<open>i\<close> on, so that
  \<^verbatim>\<open>i+1 < len(grid)\<close> reads \<open>rest \<noteq> []\<close> in the second equation. The zero \<^verbatim>\<open>LineInfo{}\<close> is returned when the
  loop runs out.
\<close>

fun LineInfo_scan ::
  "(rune list \<Rightarrow> int) \<Rightarrow> int \<Rightarrow> int \<Rightarrow> rune list list \<Rightarrow> int \<Rightarrow> int \<Rightarrow> LineInfo" where
  "LineInfo_scan sw c height [] i counter =
     \<lparr>Width = 0, CharWidth = 0, Height = 0, StartColumn = 0, ColumnOffset = 0, RowOffset = 0,
      CharOffset = 0\<rparr>"
| "LineInfo_scan sw c height (line # rest) i counter =
     (if counter + len line = c \<and> rest \<noteq> [] then
        \<lparr>Width = len (hd rest), CharWidth = sw line, Height = height,
         StartColumn = c, ColumnOffset = 0, RowOffset = i + 1, CharOffset = 0\<rparr>
      else if counter + len line \<ge> c then
        \<lparr>Width = len line, CharWidth = sw line, Height = height,
         StartColumn = counter, ColumnOffset = c - counter, RowOffset = i,
         CharOffset = sw (take (nat (max 0 (c - counter))) line)\<rparr>
      else LineInfo_scan sw c height rest (i + 1) (counter + len line))"

definition LineInfo ::
  "(rune list \<Rightarrow> int) \<Rightarrow> (rune \<Rightarrow> int) \<Rightarrow> Model
     \<Rightarrow> (LineInfo \<times> (rune list \<times> int, rune list list) MemoCache) option" where
  "LineInfo sw rw m =
     do { l \<leftarrow> cur_line m;
          let (grid, c) = memoizedWrap sw rw m l (width m);
          Some (LineInfo_scan sw (col m) (len grid) grid 0 0, c) }"

text \<open>The loops of \<^verbatim>\<open>CursorDown\<close> and \<^verbatim>\<open>CursorUp\<close> that walk to the remembered offset.\<close>

function CursorDown_walk :: "(rune \<Rightarrow> int) \<Rightarrow> int \<Rightarrow> int \<Rightarrow> Model \<Rightarrow> int \<Rightarrow> Model option" where
  "CursorDown_walk rw charOffset charWidth m offset =
     (if offset < charOffset then
        (if row m \<ge> len (value' m) then Some m
         else
           (case cur_line m of
              None \<Rightarrow> None
            | Some l \<Rightarrow>
                if col m \<ge> len l \<or> offset \<ge> charWidth - 1 then Some m
                else
                  (case elem_at l (col m) of
                     None \<Rightarrow> None
                   | Some r \<Rightarrow>
                       CursorDown_walk rw charOffset charWidth (m\<lparr>col := col m + 1\<rparr>)
                         (offset + rw r))))
      else Some m)"
  by pat_completeness auto
termination
  by (relation "measure (\<lambda>(rw, co, cw, m, off).
        case cur_line m of None \<Rightarrow> 0 | Some l \<Rightarrow> nat (len l - col m))")
     (auto simp: cur_line_def elem_at_def len_def split: if_splits)

function CursorUp_walk :: "(rune \<Rightarrow> int) \<Rightarrow> int \<Rightarrow> int \<Rightarrow> Model \<Rightarrow> int \<Rightarrow> Model option" where
  "CursorUp_walk rw charOffset charWidth m offset =
     (if offset < charOffset then
        (case cur_line m of
           None \<Rightarrow> None
         | Some l \<Rightarrow>
             if col m \<ge> len l \<or> offset \<ge> charWidth - 1 then Some m
             else
               (case elem_at l (col m) of
                  None \<Rightarrow> None
                | Some r \<Rightarrow>
                    CursorUp_walk rw charOffset charWidth (m\<lparr>col := col m + 1\<rparr>)
                      (offset + rw r)))
      else Some m)"
  by pat_completeness auto
termination
  by (relation "measure (\<lambda>(rw, co, cw, m, off).
        case cur_line m of None \<Rightarrow> 0 | Some l \<Rightarrow> nat (len l - col m))")
     (auto simp: cur_line_def elem_at_def len_def split: if_splits)

definition CursorDown ::
  "(rune list \<Rightarrow> int) \<Rightarrow> (rune \<Rightarrow> int) \<Rightarrow> Model \<Rightarrow> Model option" where
  "CursorDown sw rw m =
     do { (li, c) \<leftarrow> LineInfo sw rw m;
          let m = m\<lparr>cache := c\<rparr>;
          let charOffset = max (lastCharOffset m) (CharOffset li);
          let m = m\<lparr>lastCharOffset := charOffset\<rparr>;
          m \<leftarrow> (if RowOffset li + 1 \<ge> Height li \<and> row m < len (value' m) - 1 then
                  Some (m\<lparr>row := row m + 1, col := 0\<rparr>)
                else
                  do { l \<leftarrow> cur_line m;
                       Some (m\<lparr>col := min (StartColumn li + Width li + 2) (len l - 1)\<rparr>) });
          (nli, c) \<leftarrow> LineInfo sw rw m;
          let m = m\<lparr>cache := c, col := StartColumn nli\<rparr>;
          if Width nli \<le> 0 then Some m
          else CursorDown_walk rw charOffset (CharWidth nli) m 0 }"

definition CursorUp ::
  "(rune list \<Rightarrow> int) \<Rightarrow> (rune \<Rightarrow> int) \<Rightarrow> Model \<Rightarrow> Model option" where
  "CursorUp sw rw m =
     do { (li, c) \<leftarrow> LineInfo sw rw m;
          let m = m\<lparr>cache := c\<rparr>;
          let charOffset = max (lastCharOffset m) (CharOffset li);
          let m = m\<lparr>lastCharOffset := charOffset\<rparr>;
          m \<leftarrow> (if RowOffset li \<le> 0 \<and> row m > 0 then
                  do { l \<leftarrow> elem_at (value' m) (row m - 1);
                       Some (m\<lparr>row := row m - 1, col := len l\<rparr>) }
                else Some (m\<lparr>col := StartColumn li - 2\<rparr>));
          (nli, c) \<leftarrow> LineInfo sw rw m;
          let m = m\<lparr>cache := c, col := StartColumn nli\<rparr>;
          if Width nli \<le> 0 then Some m
          else CursorUp_walk rw charOffset (CharWidth nli) m 0 }"

text \<open>A model with the default settings of \<^verbatim>\<open>New\<close> and a given width, buffer and cursor.\<close>

definition model_at :: "int \<Rightarrow> rune list list \<Rightarrow> int \<Rightarrow> int \<Rightarrow> Model" where
  "model_at w v r c =
     \<lparr>cache = NewMemoCache maxLines, CharLimit = 0, MaxHeight = 99, width = w, value' = v,
      col = c, row = r, lastCharOffset = 0\<rparr>"

definition cursor :: "Model option \<Rightarrow> (int \<times> int) option" where
  "cursor = map_option (\<lambda>m. (row m, col m))"

definition scenario_lines :: "rune list list" where
  "scenario_lines = [runes_of ''Hello'', runes_of ''World'', runes_of ''This is a long line.'']"

subsection \<open>The cursor invariant and the scenarios\<close>

text \<open>
  A model is valid when the buffer has at least one line, the cursor row indexes a line
  and the cursor column lies between 0 and the length of that line. \<open>keeps_valid\<close> says
  that an operation returned (no panic) and left a valid model.
\<close>

definition valid :: "Model \<Rightarrow> bool" where
  "valid m \<longleftrightarrow>
     1 \<le> len (value' m) \<and> 0 \<le> row m \<and> row m < len (value' m) \<and>
     0 \<le> col m \<and> col m \<le> len (value' m ! nat (row m))"

definition keeps_valid :: "Model option \<Rightarrow> bool" where
  "keeps_valid r = (case r of None \<Rightarrow> False | Some m \<Rightarrow> valid m)"

definition row_ok :: "Model \<Rightarrow> bool" where
  "row_ok m \<longleftrightarrow> 0 \<le> row m \<and> row m < len (value' m)"

text \<open>
  The states in which the first loop of \<^verbatim>\<open>wordLeft\<close> makes no progress: the cursor is at
  the very start of the buffer and there is no non-space rune under it.
\<close>

definition stuck_at_start :: "Model \<Rightarrow> bool" where
  "stuck_at_start m \<longleftrightarrow>
     row m = 0 \<and> col m = 0 \<and>
     (case value' m of [] \<Rightarrow> False | l # ls \<Rightarrow> l = [] \<or> IsSpace (hd l))"

text \<open>The number of cursor positions from the cursor to the end of the buffer.\<close>

definition runes_ahead :: "Model \<Rightarrow> nat" where
  "runes_ahead m =
     sum_list (map (\<lambda>l. Suc (length l)) (drop (nat (row m)) (value' m))) - nat (col m)"

text \<open>
  The same with a given cache and remembered offset, for the states that the scenarios
  pass through.
\<close>

definition model_with ::
  "(rune list \<times> int, rune list list) MemoCache \<Rightarrow> int \<Rightarrow> rune list list \<Rightarrow> int \<Rightarrow> int \<Rightarrow> int
     \<Rightarrow> Model" where
  "model_with c w v r co lo =
     \<lparr>cache = c, CharLimit = 0, MaxHeight = 99, width = w, value' = v, col = co, row = r,
      lastCharOffset = lo\<rparr>"

text \<open>
  A cache of the text area is coherent when it satisfies the cache invariant and every
  entry holds the wrapping of its key. \<open>memo_cache\<close> is the cache that \<^verbatim>\<open>memoizedWrap\<close> leaves
  behind.
\<close>

definition cache_coherent ::
  "(rune list \<Rightarrow> int) \<Rightarrow> (rune \<Rightarrow> int) \<Rightarrow> (rune list \<times> int, rune list list) MemoCache
     \<Rightarrow> bool" where
  "cache_coherent sw rw c \<longleftrightarrow>
     cache_inv c \<and>
     (\<forall>rs w v. map_of (cache_assoc c) (rs, w) = Some v \<longrightarrow> v = wrap sw rw rs w)"

definition memo_cache ::
  "(rune list \<Rightarrow> int) \<Rightarrow> (rune \<Rightarrow> int) \<Rightarrow> (rune list \<times> int, rune list list) MemoCache
     \<Rightarrow> rune list \<Rightarrow> int \<Rightarrow> (rune list \<times> int, rune list list) MemoCache" where
  "memo_cache sw rw c rs w =
     (case Get line_Hash c (rs, w) of
        (Some v, c') \<Rightarrow> c'
      | (None, c') \<Rightarrow> Set line_Hash c' (rs, w) (wrap sw rw rs w))"

text \<open>The buffer of two lines, the first of four double-width glyphs.\<close>

definition wide_lines :: "rune list list" where
  "wide_lines = [[0x4F60, 0x597D, 0x4F60, 0x597D], runes_of ''Hello'']"

text \<open>A buffer for exercising the editing operations.\<close>

definition sample_model :: Model where
  "sample_model = model_at 40 [runes_of ''ab  cd'', runes_of ''ef''] 0 4"

section \<open>Properties of the soft-wrap algorithm\<close>

lemma upd_snoc2: "(ys @ [y, z])[Suc (length ys) := x] = ys @ [y, x]"
  by (induction ys) simp_all

lemma nth_snoc2: "(ys @ [y, z]) ! Suc (length ys) = z"
  by (induction ys) simp_all

lemma wrap_step_snoc:
  "wrap_step sw rw w (ys @ [y], wd, length ys, 0) r =
     (if IsSpace r then
        (if sw y + sw wd + 1 > w
         then (ys @ [y, wd @ [0x20]], [], Suc (length ys), 0)
         else (ys @ [y @ wd @ [0x20]], [], length ys, 0))
      else
        (if sw (wd @ [r]) + rw r > w then
           (if y \<noteq> [] then (ys @ [y, wd @ [r]], [], Suc (length ys), 0)
            else (ys @ [wd @ [r]], [], length ys, 0))
         else (ys @ [y], wd @ [r], length ys, 0)))"
  by (simp add: Let_def repeatSpaces_def nth_append upd_snoc2 nth_snoc2)

declare wrap_step.simps [simp del]

lemma wrap_shapeE:
  assumes "wrap_shape st"
  obtains ys y wd where "st = (ys @ [y], wd, length ys, 0)"
proof -
  obtain ls wd n sp where st: "st = (ls, wd, n, sp)" by (cases st)
  with assms have "ls \<noteq> []" "n = length ls - 1" "sp = 0" by (simp_all add: wrap_shape_def)
  then obtain ys y where "ls = ys @ [y]" by (cases ls rule: rev_cases) auto
  with st \<open>n = length ls - 1\<close> \<open>sp = 0\<close> show thesis by (intro that[of ys y wd]) simp
qed

lemma wrap_step_shape: "wrap_shape st \<Longrightarrow> wrap_shape (wrap_step sw rw w st r)"
  by (erule wrap_shapeE) (simp add: wrap_step_snoc wrap_shape_def)

lemma wrap_loop_shape: "wrap_shape (foldl (wrap_step sw rw w) ([[]], [], 0, 0) rs)"
proof (induction rs rule: rev_induct)
  case Nil
  show ?case by (simp add: wrap_shape_def)
next
  case (snoc r rs)
  then show ?case by (simp add: wrap_step_shape)
qed

lemma wrap_step_text:
  "wrap_shape st \<Longrightarrow> wrap_text (wrap_step sw rw w st r) = wrap_text st @ [space_norm r]"
  by (erule wrap_shapeE) (simp add: wrap_step_snoc wrap_text_def space_norm_def)

lemma wrap_loop_text:
  "wrap_text (foldl (wrap_step sw rw w) ([[]], [], 0, 0) rs) = map space_norm rs"
proof (induction rs rule: rev_induct)
  case Nil
  show ?case by (simp add: wrap_text_def)
next
  case (snoc r rs)
  then show ?case by (simp add: wrap_step_text wrap_loop_shape)
qed

lemma wrap_final:
  "foldl (wrap_step sw rw w) ([[]], [], 0, 0) rs = (ys @ [y], wd, length ys, 0) \<Longrightarrow>
   wrap sw rw rs w =
     (if sw y + sw wd \<ge> w then ys @ [y, wd @ [0x20]]
      else ys @ [y @ wd @ [0x20]])"
  by (simp add: wrap_def Let_def repeatSpaces_def nth_append upd_snoc2 nth_snoc2)

lemma wrap_concat: "concat (wrap sw rw s w) = map space_norm s @ [0x20]"
proof -
  let ?st = "foldl (wrap_step sw rw w) ([[]], [], 0, 0) s"
  obtain ys y wd where st: "?st = (ys @ [y], wd, length ys, 0)"
    using wrap_loop_shape[of sw rw w s] by (rule wrap_shapeE)
  have "concat (ys @ [y]) @ wd = map space_norm s"
    using wrap_loop_text[of sw rw w s] by (simp add: st wrap_text_def)
  then show ?thesis by (simp add: wrap_final[OF st])
qed


lemma StringWidth_append [simp]:
  "StringWidth u (xs @ ys) = StringWidth u xs + StringWidth u ys"
  by (simp add: StringWidth_def)

lemma StringWidth_Nil [simp]: "StringWidth u [] = 0"
  by (simp add: StringWidth_def)

lemma StringWidth_single [simp]: "StringWidth u [r] = u r"
  by (simp add: StringWidth_def)

lemma wrap_fits_word: "\<forall>r\<in>set l. \<not> IsSpace r \<Longrightarrow> wrap_fits sw w l"
  by (auto simp: wrap_fits_def)

lemma wrap_fits_narrow: "sw l \<le> w \<Longrightarrow> wrap_fits sw w l"
  by (simp add: wrap_fits_def)

lemma wrap_step_bounded:
  assumes sh: "wrap_shape st" and b: "wrap_bounded sw A w st"
    and pos: "1 \<le> w"
    and sub: "\<forall>xs ys. set xs \<subseteq> A \<longrightarrow> set ys \<subseteq> A \<longrightarrow> sw (xs @ ys) \<le> sw xs + sw ys"
    and e: "sw [] = 0" and sp: "sw [0x20] = 1" and spA: "0x20 \<in> A"
    and rA: "\<not> IsSpace r \<Longrightarrow> r \<in> A"
    and rpos: "\<not> IsSpace r \<Longrightarrow> 0 < sw [r] \<Longrightarrow> 0 < rw r"
  shows "wrap_bounded sw A w (wrap_step sw rw w st r)"
proof -
  from sh obtain ys y wd where st: "st = (ys @ [y], wd, length ys, 0)" by (rule wrap_shapeE)
  from b st have ys: "\<forall>l\<in>set ys. wrap_fits sw w l \<and> set l \<subseteq> A"
    and y: "wrap_fits sw w y" and yA: "set y \<subseteq> A"
    and wd: "sw wd \<le> w - 1" and ns: "\<forall>r\<in>set wd. \<not> IsSpace r" and wdA: "set wd \<subseteq> A"
    by (simp_all add: wrap_bounded_def)
  show ?thesis
  proof (cases "IsSpace r")
    case True
    have "sw (wd @ [0x20]) \<le> sw wd + sw [0x20]"
      using sub wdA spA by simp
    then have w1: "sw (wd @ [0x20]) \<le> sw wd + 1"
      using sp by simp
    have w2: "sw (y @ wd @ [0x20]) \<le> sw y + sw wd + 1"
    proof -
      have "set (wd @ [0x20]) \<subseteq> A" using wdA spA by simp
      with sub yA have "sw (y @ (wd @ [0x20])) \<le> sw y + sw (wd @ [0x20])" by blast
      with w1 show ?thesis by simp
    qed
    have "wrap_fits sw w (wd @ [0x20])"
      using wd w1 by (intro wrap_fits_narrow) simp
    moreover have "\<not> w < sw y + sw wd + 1 \<Longrightarrow> wrap_fits sw w (y @ wd @ [0x20])"
      using w2 by (intro wrap_fits_narrow) simp
    ultimately show ?thesis
      using True ys y yA wdA spA pos e
      by (simp add: st wrap_step_snoc wrap_bounded_def)
  next
    case False
    have rA': "r \<in> A" using False by (rule rA)
    have w1: "sw (wd @ [r]) \<le> sw wd + sw [r]"
      using sub wdA rA' by simp
    have word: "wrap_fits sw w (wd @ [r])"
      using ns False by (intro wrap_fits_word) simp
    have keep: "sw (wd @ [r]) \<le> w - 1" if "\<not> w < sw (wd @ [r]) + rw r"
    proof (cases "0 < rw r")
      case True
      with that show ?thesis by simp
    next
      case nonpos: False
      with rpos[OF False] have "sw [r] \<le> 0" by fastforce
      with w1 wd show ?thesis by simp
    qed
    show ?thesis
      using False ys y yA wdA rA' pos word keep ns e
      by (simp add: st wrap_step_snoc wrap_bounded_def)
  qed
qed

lemma wrap_loop_bounded:
  assumes pos: "1 \<le> w"
    and sub: "\<forall>xs ys. set xs \<subseteq> A \<longrightarrow> set ys \<subseteq> A \<longrightarrow> sw (xs @ ys) \<le> sw xs + sw ys"
    and e: "sw [] = 0" and sp: "sw [0x20] = 1" and spA: "0x20 \<in> A"
    and rA: "\<forall>r\<in>set rs. \<not> IsSpace r \<longrightarrow> r \<in> A"
    and rpos: "\<forall>r\<in>set rs. \<not> IsSpace r \<longrightarrow> 0 < sw [r] \<longrightarrow> 0 < rw r"
  shows "wrap_bounded sw A w (foldl (wrap_step sw rw w) ([[]], [], 0, 0) rs)"
  using rA rpos
proof (induction rs rule: rev_induct)
  case Nil
  show ?case using pos e by (simp add: wrap_bounded_def wrap_fits_def)
next
  case (snoc r rs)
  have "wrap_bounded sw A w
          (wrap_step sw rw w (foldl (wrap_step sw rw w) ([[]], [], 0, 0) rs) r)"
  proof (rule wrap_step_bounded[OF wrap_loop_shape _ pos sub e sp spA])
    show "wrap_bounded sw A w (foldl (wrap_step sw rw w) ([[]], [], 0, 0) rs)"
      using snoc by simp
    show "\<not> IsSpace r \<Longrightarrow> r \<in> A" using snoc.prems(1) by simp
    show "\<not> IsSpace r \<Longrightarrow> 0 < sw [r] \<Longrightarrow> 0 < rw r" using snoc.prems(2) by simp
  qed
  then show ?case by simp
qed

lemma RuneWidth_nonneg: "0 \<le> RuneWidth r"
  by (simp add: RuneWidth_def)

lemma space_norm_id: "\<forall>r\<in>set s. IsSpace r \<longrightarrow> r = 0x20 \<Longrightarrow> map space_norm s = s"
  by (induction s) (simp_all add: space_norm_def)

text \<open>
  Claim C1, as amended. For every rune sequence \<open>s\<close> whose white-space runes are all
  U+0020 and every width, concatenating in order the sub-lines of \<open>wrap\<close> and dropping the
  last rune, which is the padding space of the final flush, gives \<open>s\<close> exactly: every rune
  and every space in place.
\<close>

theorem wrap_roundtrip:
  assumes "\<forall>r\<in>set s. IsSpace r \<longrightarrow> r = 0x20"
  shows "butlast (concat (wrap sw rw s w)) = s \<and> last (concat (wrap sw rw s w)) = 0x20"
  using assms by (simp add: wrap_concat space_norm_id)

theorem wrap_roundtrip_witness:
  "butlast (concat (wrap (StringWidth RuneWidth) RuneWidth (runes_of ''a b'') 10)) = runes_of ''a b'' \<and>
   last (concat (wrap (StringWidth RuneWidth) RuneWidth (runes_of ''a b'') 10)) = 0x20"
  using wrap_roundtrip[of "runes_of ''a b''" "StringWidth RuneWidth" RuneWidth 10]
  by (simp add: runes_of_def IsSpace_def)

text \<open>
  Claim C1 as stated fails: on the three runes a, U+3000 (ideographic space), b the
  concatenation of the sub-lines is a, U+0020, b, U+0020, which is not the input.
\<close>

theorem wrap_roundtrip_counterexample:
  "concat (wrap (StringWidth RuneWidth) RuneWidth [0x61, 0x3000, 0x62] 10) \<noteq> [0x61, 0x3000, 0x62]"
  by (simp add: wrap_concat)

text \<open>
  Claim C2, as amended. Take a width of at least 1 and an input on whose runes display
  width does not grow under concatenation: for strings made of the non-space runes of the
  input and of U+0020 (the runes that \<open>wrap\<close> can emit), the \<^verbatim>\<open>uniseg\<close> width \<open>sw\<close> of a
  concatenation is at most the sum of the widths of its parts; the empty string has width
  0 and a single space width 1. Suppose also that go-runewidth gives a positive width
  \<open>rw r\<close> to every non-space rune \<open>r\<close> of the input whose own \<^verbatim>\<open>uniseg\<close> width is positive.
  Then every sub-line produced by \<open>wrap\<close> has display width at most the width, except a
  sub-line that holds a single word (no white space at all) wider than the width.
\<close>

theorem wrap_width_bound:
  assumes pos: "1 \<le> w"
    and sub: "\<forall>xs ys. set xs \<subseteq> emitted s \<longrightarrow> set ys \<subseteq> emitted s \<longrightarrow>
                sw (xs @ ys) \<le> sw xs + sw ys"
    and e: "sw [] = 0" and sp: "sw [0x20] = 1"
    and rpos: "\<forall>r\<in>set s. \<not> IsSpace r \<longrightarrow> 0 < sw [r] \<longrightarrow> 0 < rw r"
  shows "\<forall>l\<in>set (wrap sw rw s w).
           sw l \<le> w \<or> (w < sw l \<and> (\<forall>r\<in>set l. \<not> IsSpace r))"
proof -
  let ?st = "foldl (wrap_step sw rw w) ([[]], [], 0, 0) s"
  let ?A = "emitted s"
  obtain ys y wd where st: "?st = (ys @ [y], wd, length ys, 0)"
    using wrap_loop_shape[of sw rw w s] by (rule wrap_shapeE)
  have spA: "0x20 \<in> ?A" by (simp add: emitted_def)
  have rA: "\<forall>r\<in>set s. \<not> IsSpace r \<longrightarrow> r \<in> ?A" by (simp add: emitted_def)
  have b: "wrap_bounded sw ?A w ?st"
    using pos sub e sp spA rA rpos by (rule wrap_loop_bounded)
  then have ys: "\<forall>l\<in>set ys. wrap_fits sw w l" and y: "wrap_fits sw w y"
    and yA: "set y \<subseteq> ?A" and wd: "sw wd \<le> w - 1" and wdA: "set wd \<subseteq> ?A"
    by (simp_all add: st wrap_bounded_def)
  have "sw (wd @ [0x20]) \<le> sw wd + sw [0x20]"
    using sub wdA spA by simp
  then have w1: "sw (wd @ [0x20]) \<le> sw wd + 1"
    using sp by simp
  have w2: "sw (y @ wd @ [0x20]) \<le> sw y + sw wd + 1"
  proof -
    have "set (wd @ [0x20]) \<subseteq> ?A" using wdA spA by simp
    with sub yA have "sw (y @ (wd @ [0x20])) \<le> sw y + sw (wd @ [0x20])" by blast
    with w1 show ?thesis by simp
  qed
  have "wrap_fits sw w (wd @ [0x20])"
    using wd w1 by (intro wrap_fits_narrow) simp
  moreover have "\<not> w \<le> sw y + sw wd \<Longrightarrow> wrap_fits sw w (y @ wd @ [0x20])"
    using w2 by (intro wrap_fits_narrow) simp
  ultimately have "\<forall>l\<in>set (wrap sw rw s w). wrap_fits sw w l"
    using ys y by (simp add: wrap_final[OF st])
  then show ?thesis by (simp add: wrap_fits_def)
qed

theorem wrap_width_bound_witness:
  "(1::int) \<le> 3 \<and> StringWidth RuneWidth [] = 0 \<and> StringWidth RuneWidth [0x20] = 1 \<and>
   wrap (StringWidth RuneWidth) RuneWidth [0x61, 0x62, 0x4F60, 0x20, 0x63] 3 =
     [[0x61, 0x62, 0x4F60], [0x20, 0x63, 0x20]] \<and>
   3 < StringWidth RuneWidth [0x61, 0x62, 0x4F60] \<and>
   StringWidth RuneWidth [0x20, 0x63, 0x20] \<le> 3"
proof -
  have a: "(1::int) \<le> 3" by simp
  have b: "\<forall>xs ys. set xs \<subseteq> emitted [0x61, 0x62, 0x4F60, 0x20, 0x63] \<longrightarrow>
      set ys \<subseteq> emitted [0x61, 0x62, 0x4F60, 0x20, 0x63] \<longrightarrow>
      StringWidth RuneWidth (xs @ ys) \<le> StringWidth RuneWidth xs + StringWidth RuneWidth ys"
    by simp
  have c: "StringWidth RuneWidth [] = 0" by simp
  have d: "StringWidth RuneWidth [0x20] = 1" by (simp add: RuneWidth_def)
  have e: "\<forall>r\<in>set [0x61, 0x62, 0x4F60, 0x20, 0x63]. \<not> IsSpace r \<longrightarrow>
      0 < StringWidth RuneWidth [r] \<longrightarrow> 0 < RuneWidth r"
    by simp
  have f: "wrap (StringWidth RuneWidth) RuneWidth [0x61, 0x62, 0x4F60, 0x20, 0x63] 3 =
      [[0x61, 0x62, 0x4F60], [0x20, 0x63, 0x20]]"
    by code_simp
  show ?thesis
    using a c d f wrap_width_bound[OF a b c d e]
    by (simp add: IsSpace_def StringWidth_def RuneWidth_def)
qed

text \<open>
  Claim C2 as stated fails when the two packages disagree on a rune. The Syriac
  abbreviation mark U+070F is a format character: go-runewidth gives it width 0, while
  \<^verbatim>\<open>uniseg\<close> counts it as one column, like the Latin letters and the space around it. At
  width 3 the word a, b, U+070F is exactly 3 wide; the test before the hard split adds the
  go-runewidth width 0 of its last rune and lets the word stay pending, and the next
  space sends it out with that space: a sub-line 4 wide that holds a space.
\<close>

theorem wrap_width_bound_counterexample:
  "wrap (StringWidth RuneWidth) (RuneWidth(0x070F := 0)) [0x61, 0x62, 0x070F, 0x20, 0x63] 3 =
     [[], [0x61, 0x62, 0x070F, 0x20], [0x63, 0x20]] \<and>
   StringWidth RuneWidth [0x61, 0x62, 0x070F, 0x20] = 4 \<and>
   IsSpace ([0x61, 0x62, 0x070F, 0x20] ! 3)"
  by (simp add: wrap_def wrap_step.simps StringWidth_def RuneWidth_def IsSpace_def
      repeatSpaces_def Let_def)

text \<open>
  Claim C8, as amended. For every width of at least 1, the empty string having display
  width 0, \<open>wrap\<close> of the empty rune sequence is exactly one sub-line, and that sub-line
  holds the single padding space of the final flush.
\<close>

theorem wrap_empty: "1 \<le> w \<Longrightarrow> sw [] = 0 \<Longrightarrow> wrap sw rw [] w = [[0x20]]"
  by (simp add: wrap_def repeatSpaces_def)

theorem wrap_empty_witness:
  "(1::int) \<le> 1 \<and> StringWidth RuneWidth [] = 0 \<and>
   wrap (StringWidth RuneWidth) RuneWidth [] 1 = [[0x20]]"
  using wrap_empty[of 1 "StringWidth RuneWidth" RuneWidth] by simp

text \<open>Claim C8 as stated fails: the one sub-line of the empty input is not empty.\<close>

theorem wrap_empty_counterexample: "wrap (StringWidth RuneWidth) RuneWidth [] 1 \<noteq> [[]]"
  by (simp add: wrap_def repeatSpaces_def)

text \<open>
  Claim C10, as amended. For every rune sequence \<open>s\<close> whose white-space runes are all
  U+0020 and every width, the concatenation of the sub-lines of \<open>wrap\<close> is \<open>s\<close> followed by
  exactly one extra trailing space, so it is never the input itself.
\<close>

theorem wrap_trailing_space:
  assumes "\<forall>r\<in>set s. IsSpace r \<longrightarrow> r = 0x20"
  shows "concat (wrap sw rw s w) = s @ [0x20] \<and> concat (wrap sw rw s w) \<noteq> s"
  using assms by (simp add: wrap_concat space_norm_id)

theorem wrap_trailing_space_witness:
  "concat (wrap (StringWidth RuneWidth) RuneWidth (runes_of ''hi  there'') 6) = runes_of ''hi  there'' @ [0x20] \<and>
   concat (wrap (StringWidth RuneWidth) RuneWidth (runes_of ''hi  there'') 6) \<noteq> runes_of ''hi  there''"
  using wrap_trailing_space[of "runes_of ''hi  there''" "StringWidth RuneWidth" RuneWidth 6]
  by (simp add: runes_of_def IsSpace_def)

text \<open>
  Claim C10 as stated fails: for the single rune U+00A0 (no-break space) the concatenation
  is two U+0020, not U+00A0 followed by U+0020.
\<close>

theorem wrap_trailing_space_counterexample:
  "concat (wrap (StringWidth RuneWidth) RuneWidth [0xA0] 10) \<noteq> [0xA0] @ [0x20]"
  by (simp add: wrap_concat space_norm_def IsSpace_def)

section \<open>Properties of the memoization cache\<close>

lemma cache_keys_assoc: "cache_keys m = map fst (cache_assoc m)"
  by (simp add: cache_keys_def cache_assoc_def)

lemma filter_other_keys:
  "\<forall>x\<in>set l. fst (f x) \<noteq> h \<Longrightarrow> filter (\<lambda>p. fst p \<noteq> h) (map f l) = map f l"
  by (induction l) auto

lemma map_remove1_filter:
  "distinct (map fst (map f l)) \<Longrightarrow> e \<in> set l \<Longrightarrow>
   map f (remove1 e l) = filter (\<lambda>p. fst p \<noteq> fst (f e)) (map f l)"
proof (induction l)
  case Nil
  then show ?case by simp
next
  case (Cons a l)
  show ?case
  proof (cases "a = e")
    case True
    have "\<forall>x\<in>set l. fst (f x) \<noteq> fst (f e)"
      using Cons.prems(1) True by (auto simp: image_iff)
    then show ?thesis using True by (simp add: filter_other_keys)
  next
    case False
    with Cons.prems have "e \<in> set l" "fst (f a) \<noteq> fst (f e)"
      by (auto simp: image_iff)
    with Cons False show ?thesis by simp
  qed
qed

lemma map_of_distinct_key:
  "distinct (map fst (map f l)) \<Longrightarrow> e \<in> set l \<Longrightarrow>
   map_of (map f l) (fst (f e)) = Some (snd (f e))"
  by (induction l) (auto simp: image_iff)

lemma map_of_none_key:
  "\<forall>e\<in>set l. fst (f e) \<noteq> h \<Longrightarrow> map_of (map f l) h = None"
  by (induction l) auto

lemma remove1_last: "distinct l \<Longrightarrow> l \<noteq> [] \<Longrightarrow> remove1 (last l) l = butlast l"
  by (induction l) auto

lemma cache_inv_hit:
  "cache_inv m \<Longrightarrow> MemoCache.cache m h = Some e \<Longrightarrow>
   e \<in> set (evictionList m) \<and> fst (entries m ! e) = h \<and> e < length (entries m)"
  by (simp add: cache_inv_def)

lemma cache_inv_miss:
  "cache_inv m \<Longrightarrow> MemoCache.cache m h = None \<Longrightarrow>
   \<forall>e\<in>set (evictionList m). fst (entries m ! e) \<noteq> h"
  by (auto simp: cache_inv_def)

lemma cache_inv_distinct:
  "cache_inv m \<Longrightarrow> distinct (map fst (map ((!) (entries m)) (evictionList m)))"
  by (simp add: cache_inv_def cache_assoc_def)

lemma cache_lookup:
  assumes "cache_inv m"
  shows "map_of (cache_assoc m) h = map_option (\<lambda>e. snd (entries m ! e)) (MemoCache.cache m h)"
proof (cases "MemoCache.cache m h")
  case None
  then show ?thesis
    using cache_inv_miss[OF assms None] by (simp add: cache_assoc_def map_of_none_key)
next
  case (Some e)
  from cache_inv_hit[OF assms Some] have e: "e \<in> set (evictionList m)" "fst (entries m ! e) = h"
    by simp_all
  from map_of_distinct_key[OF cache_inv_distinct[OF assms] e(1)] e(2) Some show ?thesis
    by (simp add: cache_assoc_def)
qed

lemma Get_value: "cache_inv m \<Longrightarrow> fst (Get Hash m k) = fst (lru_get (Hash k) (cache_assoc m))"
  by (simp add: Get_def lru_get_def cache_lookup split: option.splits)

lemma Get_assoc:
  assumes "cache_inv m"
  shows "cache_assoc (snd (Get Hash m k)) = snd (lru_get (Hash k) (cache_assoc m))"
proof (cases "MemoCache.cache m (Hash k)")
  case None
  then show ?thesis using assms by (simp add: Get_def lru_get_def cache_lookup)
next
  case (Some e)
  from cache_inv_hit[OF assms Some] have e: "e \<in> set (evictionList m)" "fst (entries m ! e) = Hash k"
    by simp_all
  have "map ((!) (entries m)) (remove1 e (evictionList m)) =
      filter (\<lambda>p. fst p \<noteq> Hash k) (map ((!) (entries m)) (evictionList m))"
    using map_remove1_filter[OF cache_inv_distinct[OF assms] e(1)] e(2) by simp
  moreover have "map_of (cache_assoc m) (Hash k) = Some (snd (entries m ! e))"
    using assms Some by (simp add: cache_lookup)
  moreover have "entries m ! e = (Hash k, snd (entries m ! e))"
    using e(2) by (cases "entries m ! e") simp
  ultimately show ?thesis
    using Some e by (simp add: Get_def lru_get_def MoveToFront_def cache_assoc_def lru_touch_def)
qed

lemma lru_touch_distinct: "distinct (map fst l) \<Longrightarrow> distinct (map fst (lru_touch h v l))"
  by (induction l) (auto simp: lru_touch_def)

lemma Get_inv:
  assumes "cache_inv m"
  shows "cache_inv (snd (Get Hash m k))"
proof (cases "MemoCache.cache m (Hash k)")
  case None
  then show ?thesis using assms by (simp add: Get_def)
next
  case (Some e)
  from cache_inv_hit[OF assms Some] have e: "e \<in> set (evictionList m)" "fst (entries m ! e) = Hash k"
    by simp_all
  let ?m = "snd (Get Hash m k)"
  have m': "?m = m\<lparr>evictionList := e # remove1 e (evictionList m)\<rparr>"
    using Some e by (simp add: Get_def MoveToFront_def)
  have "distinct (map fst (cache_assoc m))"
    using assms by (simp add: cache_inv_def)
  then have "distinct (map fst (cache_assoc ?m))"
    using assms Some
    by (simp only: Get_assoc[OF assms] lru_get_def cache_lookup[OF assms] option.map
        option.case snd_conv lru_touch_distinct)
  moreover have "set (e # remove1 e (evictionList m)) = set (evictionList m)"
    using e(1) assms by (auto simp: cache_inv_def)
  moreover have "distinct (e # remove1 e (evictionList m))"
    using assms by (simp add: cache_inv_def)
  ultimately show ?thesis
    using assms unfolding m' cache_inv_def by (simp del: set_simps distinct.simps)
qed

lemma Get_capacity: "capacity (snd (Get Hash m k)) = capacity m"
  by (simp add: Get_def split: option.splits)

lemma map_butlast_nth: "map f (butlast l) = butlast (map f l)"
  by (simp add: map_butlast)

lemma Set_hit:
  assumes inv: "cache_inv m" and hit: "MemoCache.cache m (Hash k) = Some e"
  shows "cache_assoc (Set Hash m k v) = lru_touch (Hash k) v (cache_assoc m)"
    and "cache_inv (Set Hash m k v)"
proof -
  from cache_inv_hit[OF inv hit] have e: "e \<in> set (evictionList m)"
    "fst (entries m ! e) = Hash k" "e < length (entries m)"
    by simp_all
  let ?es = "(entries m)[e := (Hash k, v)]"
  let ?l = "e # remove1 e (evictionList m)"
  have m': "Set Hash m k v = m\<lparr>evictionList := ?l, entries := ?es\<rparr>"
    using hit e by (simp add: Set_def MoveToFront_def)
  have d: "distinct (evictionList m)"
    using inv by (simp add: cache_inv_def)
  have other: "\<forall>x\<in>set (remove1 e (evictionList m)). ?es ! x = entries m ! x"
    using d by auto
  have keys: "\<forall>x. fst (?es ! x) = fst (entries m ! x)"
    using e by (auto simp: nth_list_update)
  have "map ((!) ?es) (remove1 e (evictionList m)) =
      map ((!) (entries m)) (remove1 e (evictionList m))"
    using other by simp
  also have "\<dots> = filter (\<lambda>p. fst p \<noteq> Hash k) (map ((!) (entries m)) (evictionList m))"
    using map_remove1_filter[OF cache_inv_distinct[OF inv] e(1)] e(2) by simp
  finally have rest: "map ((!) ?es) (remove1 e (evictionList m)) =
      filter (\<lambda>p. fst p \<noteq> Hash k) (cache_assoc m)"
    by (simp add: cache_assoc_def)
  show a: "cache_assoc (Set Hash m k v) = lru_touch (Hash k) v (cache_assoc m)"
    using rest e(3) by (simp add: m' cache_assoc_def lru_touch_def)
  have "distinct (map fst (cache_assoc m))"
    using inv by (simp add: cache_inv_def)
  then have dk: "distinct (map fst (cache_assoc (Set Hash m k v)))"
    by (simp only: a lru_touch_distinct)
  have s: "set ?l = set (evictionList m)"
    using e(1) d by auto
  have dl: "distinct ?l"
    using d by simp
  show "cache_inv (Set Hash m k v)"
    unfolding cache_inv_def
  proof (intro conjI)
    show "distinct (evictionList (Set Hash m k v))"
      using dl by (simp add: m')
    show "\<forall>e\<in>set (evictionList (Set Hash m k v)). e < length (entries (Set Hash m k v))"
      using inv s by (simp add: m' cache_inv_def del: set_simps)
    show "distinct (map fst (cache_assoc (Set Hash m k v)))"
      by (rule dk)
    show "\<forall>h e. MemoCache.cache (Set Hash m k v) h = Some e \<longrightarrow>
        e \<in> set (evictionList (Set Hash m k v)) \<and> fst (entries (Set Hash m k v) ! e) = h"
      using inv s keys by (simp add: m' cache_inv_def del: set_simps)
    show "\<forall>e\<in>set (evictionList (Set Hash m k v)).
        MemoCache.cache (Set Hash m k v) (fst (entries (Set Hash m k v) ! e)) = Some e"
      using inv s keys by (simp add: m' cache_inv_def del: set_simps)
  qed
qed

text \<open>Pushing a new entry for a hashed key that the cache does not hold.\<close>

lemma push_new:
  fixes m :: "('h, 'v) MemoCache" and h :: 'h and v :: 'v
  assumes inv: "cache_inv m" and miss: "MemoCache.cache m h = None"
  defines "m' \<equiv> m\<lparr>entries := entries m @ [(h, v)],
                   evictionList := length (entries m) # evictionList m,
                   MemoCache.cache := (MemoCache.cache m)(h \<mapsto> length (entries m)),
                   hashableItems := (hashableItems m)(h \<mapsto> v)\<rparr>"
  shows "cache_assoc m' = (h, v) # cache_assoc m" and "cache_inv m'"
proof -
  have lt: "\<forall>e\<in>set (evictionList m). e < length (entries m)"
    using inv by (simp add: cache_inv_def)
  then have same: "\<forall>e\<in>set (evictionList m). (entries m @ [(h, v)]) ! e = entries m ! e"
    by (simp add: nth_append)
  then have old: "map ((!) (entries m @ [(h, v)])) (evictionList m) = cache_assoc m"
    by (simp add: cache_assoc_def)
  show a: "cache_assoc m' = (h, v) # cache_assoc m"
    using old by (simp add: m'_def cache_assoc_def)
  have nk: "h \<notin> fst ` set (cache_assoc m)"
    using cache_inv_miss[OF inv miss] by (auto simp: cache_assoc_def)
  have fresh: "length (entries m) \<notin> set (evictionList m)"
    using lt by auto
  show "cache_inv m'"
    unfolding cache_inv_def
  proof (intro conjI)
    show "distinct (evictionList m')"
      using inv fresh by (simp add: m'_def cache_inv_def)
    show "\<forall>e\<in>set (evictionList m'). e < length (entries m')"
      using lt by (auto simp: m'_def)
    show "distinct (map fst (cache_assoc m'))"
      using inv nk by (simp add: a cache_inv_def)
    show "\<forall>h' e. MemoCache.cache m' h' = Some e \<longrightarrow>
        e \<in> set (evictionList m') \<and> fst (entries m' ! e) = h'"
      using inv same lt by (auto simp: m'_def cache_inv_def nth_append)
    show "\<forall>e\<in>set (evictionList m'). MemoCache.cache m' (fst (entries m' ! e)) = Some e"
      using inv same lt cache_inv_miss[OF inv miss] by (auto simp: m'_def cache_inv_def nth_append)
  qed
qed

text \<open>Evicting the back element.\<close>

lemma evict_back:
  fixes m :: "('h, 'v) MemoCache"
  assumes inv: "cache_inv m" and ne: "evictionList m \<noteq> []"
  defines "t \<equiv> last (evictionList m)"
  defines "m' \<equiv> m\<lparr>evictionList := remove1 t (evictionList m),
                   MemoCache.cache := (MemoCache.cache m)(fst (entries m ! t) := None),
                   hashableItems := (hashableItems m)(fst (entries m ! t) := None)\<rparr>"
  shows "cache_assoc m' = butlast (cache_assoc m)" and "cache_inv m'"
    and "\<And>h. MemoCache.cache m h = None \<Longrightarrow> MemoCache.cache m' h = None"
proof -
  have d: "distinct (evictionList m)"
    using inv by (simp add: cache_inv_def)
  have r: "remove1 t (evictionList m) = butlast (evictionList m)"
    using d ne by (simp add: t_def remove1_last)
  show a: "cache_assoc m' = butlast (cache_assoc m)"
    by (simp add: m'_def cache_assoc_def r map_butlast)
  have sub: "set (butlast (evictionList m)) \<subseteq> set (evictionList m)"
    by (auto dest: in_set_butlastD)
  have tin: "t \<in> set (evictionList m)"
    using ne by (simp add: t_def)
  have split: "evictionList m = butlast (evictionList m) @ [t]"
    using ne by (simp add: t_def)
  have dk: "distinct (map fst (map ((!) (entries m)) (butlast (evictionList m) @ [t])))"
    using cache_inv_distinct[OF inv] split by simp
  then have nt: "\<forall>e\<in>set (butlast (evictionList m)). fst (entries m ! e) \<noteq> fst (entries m ! t)"
    by (auto simp: image_iff)
  have tnot: "t \<notin> set (butlast (evictionList m))"
    using d split by (metis distinct_append disjoint_iff list.set_intros(1) set_simps(2) insertI1)
  show "cache_inv m'"
    unfolding cache_inv_def
  proof (intro conjI)
    show "distinct (evictionList m')"
      using d by (simp add: m'_def r distinct_butlast)
    show "\<forall>e\<in>set (evictionList m'). e < length (entries m')"
      using inv sub by (auto simp: m'_def r cache_inv_def)
    show "distinct (map fst (cache_assoc m'))"
    proof -
      have "distinct (butlast (map fst (cache_assoc m)))"
        using inv by (intro distinct_butlast) (simp add: cache_inv_def)
      then show ?thesis by (simp add: a map_butlast)
    qed
    show "\<forall>h e. MemoCache.cache m' h = Some e \<longrightarrow>
        e \<in> set (evictionList m') \<and> fst (entries m' ! e) = h"
    proof (intro allI impI)
      fix h e
      assume "MemoCache.cache m' h = Some e"
      then have h: "h \<noteq> fst (entries m ! t)" and c: "MemoCache.cache m h = Some e"
        by (auto simp: m'_def split: if_splits)
      from cache_inv_hit[OF inv c] have e: "e \<in> set (evictionList m)" "fst (entries m ! e) = h"
        by simp_all
      with h have "e \<noteq> t" by auto
      with e(1) split have "e \<in> set (butlast (evictionList m))"
        by (metis butlast_snoc in_set_butlast_appendI in_set_conv_decomp insert_iff
            list.simps(15) rotate1.simps(2) set_rotate1)
      with e(2) show "e \<in> set (evictionList m') \<and> fst (entries m' ! e) = h"
        by (simp add: m'_def r)
    qed
    show "\<forall>e\<in>set (evictionList m'). MemoCache.cache m' (fst (entries m' ! e)) = Some e"
      using inv sub nt by (auto simp: m'_def r cache_inv_def)
  qed
  show "\<And>h. MemoCache.cache m h = None \<Longrightarrow> MemoCache.cache m' h = None"
    by (simp add: m'_def)
qed

lemma cache_assoc_length: "length (cache_assoc m) = length (evictionList m)"
  by (simp add: cache_assoc_def)

lemma cache_assoc_Nil: "cache_assoc m = [] \<longleftrightarrow> evictionList m = []"
  by (simp add: cache_assoc_def)

lemma Set_miss:
  assumes inv: "cache_inv m" and miss: "MemoCache.cache m (Hash k) = None"
  shows "cache_assoc (Set Hash m k v) =
           (Hash k, v) # (if capacity m \<le> int (length (cache_assoc m)) \<and> cache_assoc m \<noteq> []
                          then butlast (cache_assoc m) else cache_assoc m) \<and>
         cache_inv (Set Hash m k v)"
proof (cases "capacity m \<le> int (length (evictionList m)) \<and> evictionList m \<noteq> []")
  case True
  define m1 where "m1 = m\<lparr>evictionList := remove1 (last (evictionList m)) (evictionList m),
               MemoCache.cache := (MemoCache.cache m)(fst (entries m ! last (evictionList m)) := None),
               hashableItems :=
                 (hashableItems m)(fst (entries m ! last (evictionList m)) := None)\<rparr>"
  have set_eq: "Set Hash m k v =
      m1\<lparr>entries := entries m1 @ [(Hash k, v)],
           evictionList := length (entries m1) # evictionList m1,
           MemoCache.cache := (MemoCache.cache m1)(Hash k \<mapsto> length (entries m1)),
           hashableItems := (hashableItems m1)(Hash k \<mapsto> v)\<rparr>"
    using miss True by (simp add: Set_def Back_def Let_def m1_def)
  from True have ne: "evictionList m \<noteq> []" by simp
  have inv1: "cache_inv m1" and miss1: "MemoCache.cache m1 (Hash k) = None"
    and a1: "cache_assoc m1 = butlast (cache_assoc m)"
    using evict_back[OF inv ne] miss unfolding m1_def by simp_all
  from push_new[OF inv1 miss1, of v] show ?thesis
    using True by (simp only: set_eq a1 cache_assoc_length cache_assoc_Nil) simp
next
  case False
  have set_eq: "Set Hash m k v =
      m\<lparr>entries := entries m @ [(Hash k, v)],
           evictionList := length (entries m) # evictionList m,
           MemoCache.cache := (MemoCache.cache m)(Hash k \<mapsto> length (entries m)),
           hashableItems := (hashableItems m)(Hash k \<mapsto> v)\<rparr>"
    using miss False by (auto simp: Set_def Back_def Let_def)
  from push_new[OF inv miss, of v] show ?thesis
    using False by (simp only: set_eq cache_assoc_length cache_assoc_Nil) simp
qed

lemma cache_hit_iff:
  assumes "cache_inv m"
  shows "MemoCache.cache m h \<noteq> None \<longleftrightarrow> h \<in> fst ` set (cache_assoc m)"
proof -
  have "MemoCache.cache m h = None \<longleftrightarrow> map_of (cache_assoc m) h = None"
    by (simp add: cache_lookup[OF assms])
  then show ?thesis by (simp add: map_of_eq_None_iff)
qed

lemma Set_assoc:
  assumes "cache_inv m"
  shows "cache_assoc (Set Hash m k v) = lru_set (capacity m) (Hash k) v (cache_assoc m)"
proof (cases "MemoCache.cache m (Hash k)")
  case None
  with cache_hit_iff[OF assms, of "Hash k"] have "Hash k \<notin> fst ` set (cache_assoc m)" by simp
  moreover have "cache_assoc (Set Hash m k v) =
           (Hash k, v) # (if capacity m \<le> int (length (cache_assoc m)) \<and> cache_assoc m \<noteq> []
                          then butlast (cache_assoc m) else cache_assoc m) \<and>
         cache_inv (Set Hash m k v)"
    using assms None by (rule Set_miss)
  ultimately show ?thesis by (simp add: lru_set_def)
next
  case (Some e)
  with cache_hit_iff[OF assms, of "Hash k"] have "Hash k \<in> fst ` set (cache_assoc m)" by simp
  moreover have "cache_assoc (Set Hash m k v) = lru_touch (Hash k) v (cache_assoc m)"
    using assms Some by (rule Set_hit(1))
  ultimately show ?thesis by (simp add: lru_set_def)
qed

lemma Set_inv:
  assumes "cache_inv m"
  shows "cache_inv (Set Hash m k v)"
proof (cases "MemoCache.cache m (Hash k)")
  case None
  have "cache_assoc (Set Hash m k v) =
           (Hash k, v) # (if capacity m \<le> int (length (cache_assoc m)) \<and> cache_assoc m \<noteq> []
                          then butlast (cache_assoc m) else cache_assoc m) \<and>
         cache_inv (Set Hash m k v)"
    using assms None by (rule Set_miss)
  then show ?thesis by simp
next
  case (Some e)
  show ?thesis using assms Some by (rule Set_hit(2))
qed

lemma Set_capacity: "capacity (Set Hash m k v) = capacity m"
  by (simp add: Set_def Let_def split: option.splits)

lemma NewMemoCache_inv: "cache_inv (NewMemoCache cap)"
  by (simp add: cache_inv_def NewMemoCache_def cache_assoc_def)

lemma NewMemoCache_assoc: "cache_assoc (NewMemoCache cap) = []"
  by (simp add: NewMemoCache_def cache_assoc_def)

lemma lru_get_value: "fst (lru_get h l) = map_of l h"
  by (simp add: lru_get_def split: option.splits)

lemma map_of_filter_other: "h' \<noteq> h \<Longrightarrow> map_of (filter (\<lambda>p. fst p \<noteq> h) l) h' = map_of l h'"
  by (induction l) auto

lemma map_of_lru_touch: "map_of (lru_touch h v l) h' = (if h' = h then Some v else map_of l h')"
  by (simp add: lru_touch_def map_of_filter_other)

lemma map_of_butlast: "map_of (butlast l) h = Some x \<Longrightarrow> map_of l h = Some x"
proof (induction l)
  case Nil
  then show ?case by simp
next
  case (Cons a l)
  then show ?case by (cases l) (auto split: if_splits)
qed

lemma map_of_lru_get:
  "map_of (snd (lru_get h l)) h' = map_of l h'"
  by (auto simp: lru_get_def map_of_lru_touch split: option.splits)

lemma map_of_lru_set:
  "map_of (lru_set cap h v l) h' = Some x \<Longrightarrow> (h' = h \<and> x = v) \<or> (h' \<noteq> h \<and> map_of l h' = Some x)"
  by (auto simp: lru_set_def map_of_lru_touch dest: map_of_butlast split: if_splits)

lemma map_of_lru_set_same: "map_of (lru_set cap h v l) h = Some v"
  by (simp add: lru_set_def map_of_lru_touch)

lemma length_lru_touch:
  "h \<in> fst ` set l \<Longrightarrow> length (lru_touch h v l) \<le> length l"
proof (induction l)
  case Nil
  then show ?case by simp
next
  case (Cons a l)
  show ?case
  proof (cases "fst a = h")
    case True
    have "length (filter (\<lambda>p. fst p \<noteq> h) l) \<le> length l" by simp
    with True show ?thesis by (simp add: lru_touch_def)
  next
    case False
    with Cons show ?thesis by (auto simp: lru_touch_def)
  qed
qed

lemma length_lru_get: "length (snd (lru_get h l)) \<le> length l"
proof (cases "map_of l h")
  case None
  then show ?thesis by (simp add: lru_get_def)
next
  case (Some v)
  then have "h \<in> fst ` set l" by (metis map_of_eq_None_iff option.distinct(1))
  with Some show ?thesis by (simp add: lru_get_def length_lru_touch)
qed

lemma length_lru_set:
  "1 \<le> cap \<Longrightarrow> int (length l) \<le> cap \<Longrightarrow> int (length (lru_set cap h v l)) \<le> cap"
proof (cases "h \<in> fst ` set l")
  case True
  assume "int (length l) \<le> cap"
  with length_lru_touch[OF True, of v] True show ?thesis by (simp add: lru_set_def)
next
  case False
  assume "1 \<le> cap" "int (length l) \<le> cap"
  with False show ?thesis by (cases l rule: rev_cases) (auto simp: lru_set_def)
qed

lemma after_history_inv: "cache_inv (after_history Hash cap hist)"
proof (induction hist)
  case Nil
  show ?case by (simp add: NewMemoCache_inv)
next
  case (Cons a hist)
  then show ?case by (cases a) (simp_all add: Get_inv Set_inv)
qed

lemma after_history_capacity: "capacity (after_history Hash cap hist) = cap"
proof (induction hist)
  case Nil
  show ?case by (simp add: NewMemoCache_def)
next
  case (Cons a hist)
  then show ?case by (cases a) (simp_all add: Get_capacity Set_capacity)
qed

lemma after_history_length:
  "1 \<le> cap \<Longrightarrow> int (length (cache_assoc (after_history Hash cap hist))) \<le> cap"
proof (induction hist)
  case Nil
  then show ?case by (simp add: NewMemoCache_assoc)
next
  case (Cons a hist)
  let ?m = "after_history Hash cap hist"
  show ?case
  proof (cases a)
    case (DoGet k)
    have "length (snd (lru_get (Hash k) (cache_assoc ?m))) \<le> length (cache_assoc ?m)"
      by (rule length_lru_get)
    with Cons DoGet show ?thesis by (simp add: Get_assoc after_history_inv)
  next
    case (DoSet k v)
    with Cons show ?thesis
      by (simp add: Set_assoc after_history_inv after_history_capacity length_lru_set)
  qed
qed

lemma after_history_values:
  "inj_on Hash (insert k (action_key ` set hist)) \<Longrightarrow>
   map_of (cache_assoc (after_history Hash cap hist)) (Hash k) = Some x \<Longrightarrow>
   last_set hist k = Some x"
proof (induction hist arbitrary: x)
  case Nil
  then show ?case by (simp add: NewMemoCache_assoc)
next
  case (Cons a hist)
  let ?m = "after_history Hash cap hist"
  have inj: "inj_on Hash (insert k (action_key ` set hist))"
    using Cons.prems(1) by (rule inj_on_subset) auto
  show ?case
  proof (cases a)
    case (DoGet k')
    with Cons.prems have "map_of (cache_assoc ?m) (Hash k) = Some x"
      by (simp add: Get_assoc after_history_inv map_of_lru_get)
    with Cons.IH[OF inj] DoGet show ?thesis by simp
  next
    case (DoSet k' v)
    have eq: "Hash k = Hash k' \<longleftrightarrow> k = k'"
      using Cons.prems(1) DoSet by (auto dest: inj_onD)
    from DoSet Cons.prems
    have "map_of (lru_set cap (Hash k') v (cache_assoc ?m)) (Hash k) = Some x"
      by (simp add: Set_assoc after_history_inv after_history_capacity)
    then have "(Hash k = Hash k' \<and> x = v) \<or>
        (Hash k \<noteq> Hash k' \<and> map_of (cache_assoc ?m) (Hash k) = Some x)"
      by (rule map_of_lru_set)
    with Cons.IH[OF inj] DoSet eq show ?thesis by auto
  qed
qed

lemma Get_cache: "MemoCache.cache (snd (Get Hash m k)) = MemoCache.cache m"
  by (simp add: Get_def split: option.splits)

lemma Set_cache:
  "h \<noteq> Hash k \<Longrightarrow>
   MemoCache.cache (Set Hash m k v) h \<noteq> None \<longleftrightarrow>
     MemoCache.cache m h \<noteq> None \<and> evicted_by Hash m (DoSet k v) \<noteq> Some h"
  by (auto simp: Set_def evicted_by_def Back_def Let_def split: option.splits if_splits)

lemma Set_cache_same: "MemoCache.cache (Set Hash m k v) (Hash k) \<noteq> None"
  by (auto simp: Set_def Let_def split: option.splits)

lemma after_history_resident:
  "inj_on Hash (insert k (action_key ` set hist)) \<Longrightarrow>
   MemoCache.cache (after_history Hash cap hist) (Hash k) \<noteq> None \<longleftrightarrow>
     resident Hash cap hist k"
proof (induction hist)
  case Nil
  show ?case by (simp add: NewMemoCache_def)
next
  case (Cons a hist)
  have inj: "inj_on Hash (insert k (action_key ` set hist))"
    using Cons.prems by (rule inj_on_subset) auto
  note IH = Cons.IH[OF inj]
  show ?case
  proof (cases a)
    case (DoGet k')
    with IH show ?thesis by (simp add: Get_cache)
  next
    case (DoSet k' v)
    show ?thesis
    proof (cases "k' = k")
      case True
      with DoSet show ?thesis by (simp add: Set_cache_same)
    next
      case False
      with Cons.prems DoSet have "Hash k \<noteq> Hash k'" by (auto dest: inj_onD)
      then have "MemoCache.cache (Set Hash (after_history Hash cap hist) k' v) (Hash k) \<noteq> None \<longleftrightarrow>
          MemoCache.cache (after_history Hash cap hist) (Hash k) \<noteq> None \<and>
          evicted_by Hash (after_history Hash cap hist) (DoSet k' v) \<noteq> Some (Hash k)"
        by (rule Set_cache)
      with IH DoSet False show ?thesis by simp
    qed
  qed
qed

lemma last_touch_le: "last_touch Hash hist h \<le> length hist"
  by (induction hist) (auto simp: le_Suc_eq)

lemma keys_lru_touch: "map fst (lru_touch h v l) = h # filter (\<lambda>x. x \<noteq> h) (map fst l)"
  by (simp add: lru_touch_def filter_map comp_def)

lemma sorted_wrt_butlast: "sorted_wrt P l \<Longrightarrow> sorted_wrt P (butlast l)"
  by (induction l) (auto dest: in_set_butlastD)

lemma recency_front:
  assumes "recency_sorted Hash hist hs"
  shows "recency_sorted Hash (a # hist) (Hash (action_key a) # filter (\<lambda>x. x \<noteq> Hash (action_key a)) hs)"
proof -
  let ?h = "Hash (action_key a)"
  have "sorted_wrt (\<lambda>h h'. last_touch Hash hist h' < last_touch Hash hist h) (filter (\<lambda>x. x \<noteq> ?h) hs)"
    using assms by (simp add: recency_sorted_def sorted_wrt_filter)
  then have "sorted_wrt (\<lambda>h h'. last_touch Hash (a # hist) h' < last_touch Hash (a # hist) h)
      (filter (\<lambda>x. x \<noteq> ?h) hs)"
    by (rule sorted_wrt_mono_rel[rotated]) auto
  moreover have "\<forall>x\<in>set (filter (\<lambda>x. x \<noteq> ?h) hs). last_touch Hash (a # hist) x < last_touch Hash (a # hist) ?h"
    using last_touch_le[of Hash hist] by (auto simp: less_Suc_eq_le)
  ultimately show ?thesis by (simp add: recency_sorted_def)
qed

lemma recency_untouched:
  assumes "recency_sorted Hash hist hs" and "Hash (action_key a) \<notin> set hs"
  shows "recency_sorted Hash (a # hist) hs"
proof -
  have "sorted_wrt (\<lambda>h h'. last_touch Hash (a # hist) h' < last_touch Hash (a # hist) h) hs"
    using assms(1)[unfolded recency_sorted_def]
    by (rule sorted_wrt_mono_rel[rotated]) (use assms(2) in auto)
  then show ?thesis by (simp add: recency_sorted_def)
qed

lemma filter_absent: "h \<notin> set hs \<Longrightarrow> filter (\<lambda>x. x \<noteq> h) hs = hs"
  by (induction hs) auto

lemma after_history_sorted:
  "recency_sorted Hash hist (map fst (cache_assoc (after_history Hash cap hist)))"
proof (induction hist)
  case Nil
  show ?case by (simp add: NewMemoCache_assoc recency_sorted_def)
next
  case (Cons a hist)
  let ?m = "after_history Hash cap hist"
  let ?ks = "map fst (cache_assoc ?m)"
  have inv: "cache_inv ?m" by (rule after_history_inv)
  show ?case
  proof (cases a)
    case (DoGet k)
    show ?thesis
    proof (cases "map_of (cache_assoc ?m) (Hash k)")
      case None
      then have "Hash k \<notin> set ?ks" by (simp add: map_of_eq_None_iff)
      with recency_untouched[OF Cons, of a] DoGet None show ?thesis
        by (simp add: Get_assoc[OF inv] lru_get_def)
    next
      case (Some v)
      with recency_front[OF Cons, of a] DoGet show ?thesis
        by (simp add: Get_assoc[OF inv] lru_get_def keys_lru_touch)
    qed
  next
    case (DoSet k v)
    show ?thesis
    proof (cases "Hash k \<in> fst ` set (cache_assoc ?m)")
      case True
      with recency_front[OF Cons, of a] DoSet show ?thesis
        by (simp add: Set_assoc[OF inv] lru_set_def keys_lru_touch)
    next
      case False
      let ?rest = "if cap \<le> int (length (cache_assoc ?m)) \<and> cache_assoc ?m \<noteq> []
                   then butlast ?ks else ?ks"
      have "recency_sorted Hash hist ?rest"
        using Cons by (simp add: recency_sorted_def sorted_wrt_butlast)
      moreover have nin: "Hash k \<notin> set ?rest"
        using False by (auto dest: in_set_butlastD)
      ultimately have "recency_sorted Hash (a # hist) (Hash k # filter (\<lambda>x. x \<noteq> Hash k) ?rest)"
        using recency_front[of Hash hist ?rest a] DoSet by simp
      then have "recency_sorted Hash (a # hist) (Hash k # ?rest)"
        by (subst (asm) filter_absent[OF nin])
      with False DoSet show ?thesis
        by (auto simp: Set_assoc[OF inv] lru_set_def after_history_capacity map_butlast
            split: if_splits)
    qed
  qed
qed

lemma sorted_wrt_last_least:
  "sorted_wrt P l \<Longrightarrow> x \<in> set (butlast l) \<Longrightarrow> P x (last l)"
proof (induction l)
  case Nil
  then show ?case by simp
next
  case (Cons a l)
  then show ?case by (cases "l = []") auto
qed

lemma evicted_by_Some:
  assumes "evicted_by Hash m (DoSet k v) = Some h"
  shows "MemoCache.cache m (Hash k) = None \<and> capacity m \<le> int (length (evictionList m)) \<and>
         evictionList m \<noteq> [] \<and> h = last (cache_keys m)"
  using assms
  by (auto simp: evicted_by_def Back_def cache_keys_def last_map split: option.splits if_splits)

lemma eviction_least_recent:
  assumes ev: "evicted_by Hash (after_history Hash cap hist) (DoSet k v) = Some h"
  shows "cache_keys (Set Hash (after_history Hash cap hist) k v) =
           Hash k # butlast (cache_keys (after_history Hash cap hist)) \<and>
         h = last (cache_keys (after_history Hash cap hist)) \<and>
         (\<forall>h'\<in>set (butlast (cache_keys (after_history Hash cap hist))).
            last_touch Hash hist h < last_touch Hash hist h')"
proof -
  let ?m = "after_history Hash cap hist"
  have inv: "cache_inv ?m" by (rule after_history_inv)
  from evicted_by_Some[OF ev] have miss: "MemoCache.cache ?m (Hash k) = None"
    and full: "capacity ?m \<le> int (length (evictionList ?m))" and ne: "evictionList ?m \<noteq> []"
    and h: "h = last (cache_keys ?m)"
    by simp_all
  have "cache_assoc (Set Hash ?m k v) =
           (Hash k, v) # (if capacity ?m \<le> int (length (cache_assoc ?m)) \<and> cache_assoc ?m \<noteq> []
                          then butlast (cache_assoc ?m) else cache_assoc ?m) \<and>
         cache_inv (Set Hash ?m k v)"
    using inv miss by (rule Set_miss)
  then have keys: "cache_keys (Set Hash ?m k v) = Hash k # butlast (cache_keys ?m)"
    using full ne by (simp add: cache_keys_assoc cache_assoc_length cache_assoc_Nil map_butlast)
  have "recency_sorted Hash hist (cache_keys ?m)"
    using after_history_sorted[of Hash hist cap] by (simp add: cache_keys_assoc)
  then have "\<forall>h'\<in>set (butlast (cache_keys ?m)). last_touch Hash hist h < last_touch Hash hist h'"
    unfolding recency_sorted_def h by (auto dest: sorted_wrt_last_least)
  with keys h show ?thesis by simp
qed

lemma evicted_by_full:
  assumes "cache_inv m" and "Hash k \<notin> set (cache_keys m)"
    and "capacity m \<le> int (length (cache_keys m))" and "cache_keys m \<noteq> []"
  shows "evicted_by Hash m (DoSet k v) = Some (last (cache_keys m))"
proof -
  have "MemoCache.cache m (Hash k) = None"
    using cache_hit_iff[OF assms(1), of "Hash k"] assms(2) by (simp add: cache_keys_assoc)
  then show ?thesis
    using assms(3,4) by (simp add: evicted_by_def Back_def cache_keys_def last_map)
qed

lemma fill_history_Suc: "fill_history val (Suc n) = DoSet (Suc n) (val (Suc n)) # fill_history val n"
  by (simp add: fill_history_def)

lemma hash_fresh:
  assumes "inj_on Hash K" and "k \<in> K" and "set ks \<subseteq> K" and "k \<notin> set ks"
  shows "Hash k \<notin> Hash ` set ks"
  using assms by (auto dest: inj_onD)

lemma fill_below_capacity:
  assumes "inj_on Hash {1..C + 2}"
  shows "n \<le> C \<Longrightarrow>
    cache_assoc (after_history Hash (int C) (fill_history val n)) =
      map (\<lambda>i. (Hash i, val i)) (rev [1..<Suc n])"
proof (induction n)
  case 0
  show ?case by (simp add: fill_history_def NewMemoCache_assoc)
next
  case (Suc n)
  let ?m = "after_history Hash (int C) (fill_history val n)"
  have l: "cache_assoc ?m = map (\<lambda>i. (Hash i, val i)) (rev [1..<Suc n])"
    using Suc by simp
  have "Hash (Suc n) \<notin> Hash ` set [1..<Suc n]"
    using assms Suc.prems by (intro hash_fresh[where K = "{1..C + 2}"]) auto
  then have "Hash (Suc n) \<notin> fst ` set (cache_assoc ?m)"
    by (simp add: l image_image)
  moreover have "\<not> int C \<le> int (length (cache_assoc ?m))"
    using Suc.prems by (simp add: l)
  ultimately show ?case
    by (simp add: fill_history_Suc Set_assoc after_history_inv after_history_capacity
        lru_set_def l)
qed

lemma butlast_rev_upt:
  "butlast (rev [Suc 0..<Suc (Suc n)]) = rev [Suc (Suc 0)..<Suc (Suc n)]"
proof -
  have "[Suc 0..<Suc (Suc n)] = Suc 0 # [Suc (Suc 0)..<Suc (Suc n)]"
    by (rule upt_conv_Cons) simp
  then show ?thesis by (simp only: rev.simps butlast_snoc)
qed

lemma fill_over_capacity:
  assumes "inj_on Hash {1..C + 2}" and "1 \<le> C"
  shows "cache_assoc (after_history Hash (int C) (fill_history val (Suc C))) =
      map (\<lambda>i. (Hash i, val i)) (rev [Suc (Suc 0)..<Suc (Suc C)])"
proof -
  let ?m = "after_history Hash (int C) (fill_history val C)"
  have l: "cache_assoc ?m = map (\<lambda>i. (Hash i, val i)) (rev [1..<Suc C])"
    using fill_below_capacity[OF assms(1), of C val] by simp
  obtain n where C: "C = Suc n"
    using assms(2) by (cases C) simp_all
  have "Hash (Suc C) \<notin> Hash ` set [1..<Suc C]"
    using assms(1) by (intro hash_fresh[where K = "{1..C + 2}"]) auto
  then have "Hash (Suc C) \<notin> fst ` set (cache_assoc ?m)"
    by (simp add: l image_image)
  moreover have "int C \<le> int (length (cache_assoc ?m))" "cache_assoc ?m \<noteq> []"
    using assms(2) by (simp_all add: l)
  moreover have "butlast (cache_assoc ?m) =
      map (\<lambda>i. (Hash i, val i)) (rev [Suc (Suc 0)..<Suc C])"
  proof -
    have "butlast (rev [Suc 0..<Suc C]) = rev [Suc (Suc 0)..<Suc C]"
      unfolding C by (rule butlast_rev_upt)
    then have "map (\<lambda>i. (Hash i, val i)) (butlast (rev [Suc 0..<Suc C])) =
        map (\<lambda>i. (Hash i, val i)) (rev [Suc (Suc 0)..<Suc C])"
      by (rule arg_cong)
    then show ?thesis
      by (simp only: l One_nat_def map_butlast)
  qed
  ultimately have "cache_assoc (Set Hash ?m (Suc C) (val (Suc C))) =
      (Hash (Suc C), val (Suc C)) # map (\<lambda>i. (Hash i, val i)) (rev [Suc (Suc 0)..<Suc C])"
    by (simp only: Set_assoc[OF after_history_inv] after_history_capacity lru_set_def if_True
        if_False simp_thms)
  then show ?thesis
    using assms(2) by (simp add: fill_history_Suc)
qed

lemma scenario_keys:
  assumes "inj_on Hash {1..C + 2}" and "1 \<le> C"
  shows "cache_keys (after_history Hash (int C) (DoGet 1 # fill_history val (Suc C))) =
      map Hash (rev [Suc (Suc 0)..<Suc (Suc C)])"
proof -
  let ?m = "after_history Hash (int C) (fill_history val (Suc C))"
  have l: "cache_assoc ?m = map (\<lambda>i. (Hash i, val i)) (rev [Suc (Suc 0)..<Suc (Suc C)])"
    using assms by (rule fill_over_capacity)
  have "Hash 1 \<notin> Hash ` set [Suc (Suc 0)..<Suc (Suc C)]"
    using assms(1) by (intro hash_fresh[where K = "{1..C + 2}"]) auto
  then have "Hash 1 \<notin> fst ` set (cache_assoc ?m)"
    by (simp add: l image_image del: upt_Suc)
  then have "map_of (cache_assoc ?m) (Hash 1) = None"
    by (simp add: map_of_eq_None_iff)
  then have "cache_assoc (snd (Get Hash ?m 1)) = cache_assoc ?m"
    by (simp add: Get_assoc after_history_inv lru_get_def)
  then show ?thesis
    by (simp add: cache_keys_assoc l comp_def)
qed

lemma last_rev_upt: "last (map f (rev [Suc (Suc 0)..<Suc (Suc (Suc n))])) = f (Suc (Suc 0))"
proof -
  have "[Suc (Suc 0)..<Suc (Suc (Suc n))] = Suc (Suc 0) # [Suc (Suc (Suc 0))..<Suc (Suc (Suc n))]"
    by (rule upt_conv_Cons) simp
  then show ?thesis by simp
qed

lemma scenario_evicts_key_2:
  assumes "inj_on Hash {1..C + 2}" and "1 \<le> C"
  shows "evicted_by Hash (after_history Hash (int C) (DoGet 1 # fill_history val (Suc C)))
           (DoSet (C + 2) v) = Some (Hash 2)"
proof -
  define m where "m = after_history Hash (int C) (DoGet 1 # fill_history val (Suc C))"
  have k: "cache_keys m = map Hash (rev [Suc (Suc 0)..<Suc (Suc C)])"
    unfolding m_def using assms by (rule scenario_keys)
  have inv: "cache_inv m"
    unfolding m_def by (rule after_history_inv)
  have cap: "capacity m = int C"
    unfolding m_def by (rule after_history_capacity)
  obtain n where C: "C = Suc n"
    using assms(2) by (cases C) simp_all
  have "Hash (C + 2) \<notin> Hash ` set [Suc (Suc 0)..<Suc (Suc C)]"
    using assms(1) by (intro hash_fresh[where K = "{1..C + 2}"]) auto
  then have "Hash (C + 2) \<notin> set (cache_keys m)"
    unfolding k by (simp del: upt_Suc)
  moreover have "capacity m \<le> int (length (cache_keys m))"
    unfolding k cap by (simp del: upt_Suc)
  moreover have "cache_keys m \<noteq> []"
    using assms(2) unfolding k by (simp del: upt_Suc)
  ultimately have "evicted_by Hash m (DoSet (C + 2) v) = Some (last (cache_keys m))"
    using inv by (intro evicted_by_full)
  moreover have "last (cache_keys m) = Hash (Suc (Suc 0))"
    unfolding k C by (rule last_rev_upt)
  ultimately show ?thesis
    unfolding m_def by (simp only: numeral_2_eq_2)
qed

text \<open>
  Claim C4, as amended. Take any history of \<^verbatim>\<open>Get\<close> and \<^verbatim>\<open>Set\<close> operations on a new cache. If
  the cache was created with a capacity of at least 1, it holds at most \<^verbatim>\<open>Capacity()\<close>
  entries after the history. For a key \<open>k\<close> such that no two distinct keys among \<open>k\<close> and the
  keys of the history have the same hash, whatever the capacity, \<^verbatim>\<open>Get(k)\<close> returns the
  value of the most recent \<^verbatim>\<open>Set\<close> for \<open>k\<close> with \<^verbatim>\<open>true\<close> when \<open>k\<close> has been set and its entry has not
  been evicted since, and the zero value with \<^verbatim>\<open>false\<close> otherwise.
\<close>

theorem cache_correct:
  "(1 \<le> cap \<longrightarrow>
      Size (after_history Hash cap hist) \<le> Capacity (after_history Hash cap hist)) \<and>
   (inj_on Hash (insert k (action_key ` set hist)) \<longrightarrow>
      fst (Get Hash (after_history Hash cap hist) k) =
        (if resident Hash cap hist k then last_set hist k else None) \<and>
      (resident Hash cap hist k \<longrightarrow> last_set hist k \<noteq> None))"
proof (intro conjI impI)
  let ?m = "after_history Hash cap hist"
  have inv: "cache_inv ?m" by (rule after_history_inv)
  show "Size ?m \<le> Capacity ?m" if "1 \<le> cap"
    using after_history_length[OF that, of Hash hist]
    by (simp add: Size_def Capacity_def after_history_capacity cache_assoc_length)
  assume inj: "inj_on Hash (insert k (action_key ` set hist))"
  have val: "fst (Get Hash ?m k) = map_of (cache_assoc ?m) (Hash k)"
    by (simp add: Get_value[OF inv] lru_get_value)
  have res: "resident Hash cap hist k \<longleftrightarrow> map_of (cache_assoc ?m) (Hash k) \<noteq> None"
    using after_history_resident[OF inj, of cap]
    by (simp add: cache_lookup[OF inv])
  have hit: "resident Hash cap hist k \<Longrightarrow>
      map_of (cache_assoc ?m) (Hash k) = last_set hist k \<and> last_set hist k \<noteq> None"
    using res after_history_values[OF inj, of cap] by auto
  show "fst (Get Hash ?m k) = (if resident Hash cap hist k then last_set hist k else None)"
    using val res hit by auto
  show "last_set hist k \<noteq> None" if "resident Hash cap hist k"
    using hit[OF that] by simp
qed

theorem cache_correct_witness:
  "Size (after_history (\<lambda>k::nat. k) 2 [DoGet 1, DoSet 3 30, DoSet 1 11, DoSet 2 20, DoSet 1 (10::nat)])
     \<le> Capacity (after_history (\<lambda>k::nat. k) 2
         [DoGet 1, DoSet 3 30, DoSet 1 11, DoSet 2 20, DoSet 1 (10::nat)]) \<and>
   fst (Get (\<lambda>k::nat. k)
     (after_history (\<lambda>k::nat. k) 2 [DoGet 1, DoSet 3 30, DoSet 1 11, DoSet 2 20, DoSet 1 (10::nat)])
     1) = Some 11 \<and>
   fst (Get (\<lambda>k::nat. k)
     (after_history (\<lambda>k::nat. k) 2 [DoGet 1, DoSet 3 30, DoSet 1 11, DoSet 2 20, DoSet 1 (10::nat)])
     2) = None"
proof -
  let ?h = "[DoGet 1, DoSet 3 30, DoSet 1 11, DoSet 2 20, DoSet 1 (10::nat)] :: (nat, nat) cacheAction list"
  have a: "inj_on (\<lambda>k::nat. k) (insert k (action_key ` set ?h))" for k by simp
  have b: "(1::int) \<le> 2" by simp
  have c: "resident (\<lambda>k::nat. k) 2 ?h 1"
    by code_simp
  have d: "\<not> resident (\<lambda>k::nat. k) 2 ?h 2"
    by code_simp
  show ?thesis
    using a b c d cache_correct[of 2 "\<lambda>k::nat. k" ?h 1] cache_correct[of 2 "\<lambda>k::nat. k" ?h 2]
    by simp
qed

text \<open>
  Claim C4 as stated fails for a cache of capacity 0: after one \<^verbatim>\<open>Set\<close> it holds one
  entry, more than its capacity.
\<close>

theorem cache_size_counterexample:
  "\<not> Size (after_history (\<lambda>k::nat. k) 0 [DoSet 1 (10::nat)])
       \<le> Capacity (after_history (\<lambda>k::nat. k) 0 [DoSet 1 (10::nat)])"
  by (simp add: Size_def Capacity_def Set_def Back_def NewMemoCache_def Let_def)

text \<open>
  The condition on the hashes is needed as well, and the key type of the text area does
  not meet it on every input: a line that holds the surrogate half U+D800 and the line
  that holds U+FFFD in its place have the same hash, so that after a \<^verbatim>\<open>Set\<close> for the first
  a \<^verbatim>\<open>Get\<close> of the second, which was never set, finds the entry of the first.
\<close>

lemma line_Hash_collision:
  "line_Hash ([0xD800], 40) = line_Hash ([0xFFFD], 40) \<and>
   fst (Get line_Hash (after_history line_Hash 10 [DoSet ([0xD800], 40) [[0xD800, 0x20]]])
          ([0xFFFD], 40)) = Some [[0xD800, 0x20]] \<and>
   last_set [DoSet ([0xD800], 40) [[0xD800, 0x20::rune]]] ([0xFFFD::rune], 40::int) = None"
  by (simp add: line_Hash_def string_rune_def Get_def Set_def Back_def NewMemoCache_def Let_def)

text \<open>
  Claim C5, as amended. In a cache of capacity \<open>C\<close> of at least 1, with keys 1 to \<open>C + 2\<close> of
  pairwise distinct hashes, after setting the keys 1 to \<open>C + 1\<close> in this order, then \<^verbatim>\<open>Get\<close>
  of key 1, the \<^verbatim>\<open>Set\<close> of the new key \<open>C + 2\<close> evicts key 2. For every capacity, hash and
  history, whenever a \<^verbatim>\<open>Set\<close> evicts, it removes exactly the back entry of the list, and
  that entry is the one least recently touched by a \<^verbatim>\<open>Get\<close> or \<^verbatim>\<open>Set\<close>.
\<close>

theorem lru_eviction_order:
  "(1 \<le> C \<and> inj_on Hash {1..C + 2} \<longrightarrow>
      evicted_by Hash (after_history Hash (int C) (DoGet 1 # fill_history val (Suc C)))
        (DoSet (C + 2) v) = Some (Hash 2)) \<and>
   (\<forall>cap hist k x h.
      evicted_by H (after_history H cap hist) (DoSet k x) = Some h \<longrightarrow>
      cache_keys (Set H (after_history H cap hist) k x) =
        H k # butlast (cache_keys (after_history H cap hist)) \<and>
      h = last (cache_keys (after_history H cap hist)) \<and>
      (\<forall>h'\<in>set (butlast (cache_keys (after_history H cap hist))).
         last_touch H hist h < last_touch H hist h'))"
proof (rule conjI)
  show "1 \<le> C \<and> inj_on Hash {1..C + 2} \<longrightarrow>
      evicted_by Hash (after_history Hash (int C) (DoGet 1 # fill_history val (Suc C)))
        (DoSet (C + 2) v) = Some (Hash 2)"
  proof
    assume a: "1 \<le> C \<and> inj_on Hash {1..C + 2}"
    then have "inj_on Hash {1..C + 2}" and "1 \<le> C" by simp_all
    then show "evicted_by Hash (after_history Hash (int C) (DoGet 1 # fill_history val (Suc C)))
        (DoSet (C + 2) v) = Some (Hash 2)"
      by (rule scenario_evicts_key_2)
  qed
next
  show "\<forall>cap hist k x h.
      evicted_by H (after_history H cap hist) (DoSet k x) = Some h \<longrightarrow>
      cache_keys (Set H (after_history H cap hist) k x) =
        H k # butlast (cache_keys (after_history H cap hist)) \<and>
      h = last (cache_keys (after_history H cap hist)) \<and>
      (\<forall>h'\<in>set (butlast (cache_keys (after_history H cap hist))).
         last_touch H hist h < last_touch H hist h')"
  proof (intro allI impI)
    fix cap hist k x h
    assume "evicted_by H (after_history H cap hist) (DoSet k x) = Some h"
    then show "cache_keys (Set H (after_history H cap hist) k x) =
        H k # butlast (cache_keys (after_history H cap hist)) \<and>
        h = last (cache_keys (after_history H cap hist)) \<and>
        (\<forall>h'\<in>set (butlast (cache_keys (after_history H cap hist))).
           last_touch H hist h < last_touch H hist h')"
      by (rule eviction_least_recent)
  qed
qed

theorem lru_eviction_order_witness:
  "evicted_by (\<lambda>k::nat. k)
     (after_history (\<lambda>k::nat. k) (int 2) (DoGet 1 # fill_history (\<lambda>i. 10 * i) (Suc 2)))
     (DoSet (2 + 2) (0::nat)) = Some 2"
proof -
  have a: "(1::nat) \<le> 2 \<and> inj_on (\<lambda>k::nat. k) {1..2 + 2}" by simp
  have "(1::nat) \<le> 2 \<and> inj_on (\<lambda>k::nat. k) {1..2 + 2} \<longrightarrow>
      evicted_by (\<lambda>k::nat. k)
        (after_history (\<lambda>k::nat. k) (int 2) (DoGet 1 # fill_history (\<lambda>i. 10 * i) (Suc 2)))
        (DoSet (2 + 2) (0::nat)) = Some ((\<lambda>k::nat. k) 2)"
    by (rule conjunct1[OF lru_eviction_order])
  with a show ?thesis by simp
qed

text \<open>
  Claim C5 as stated fails for capacity 0, where the cache holds one entry: after the
  \<^verbatim>\<open>Set\<close> of key 1 and the \<^verbatim>\<open>Get\<close> of key 1, the \<^verbatim>\<open>Set\<close> of the new key 2 evicts key 1.
\<close>

theorem lru_eviction_counterexample:
  "evicted_by (\<lambda>k::nat. k)
     (after_history (\<lambda>k::nat. k) (int 0) (DoGet 1 # fill_history (\<lambda>i. 10 * i) (Suc 0)))
     (DoSet (0 + 2) (0::nat)) = Some 1"
  by (simp add: evicted_by_def fill_history_def Get_def Set_def Back_def MoveToFront_def
      NewMemoCache_def Let_def)

section \<open>Properties of the text area\<close>

declare deleteWordLeft_spaces.simps [simp del] deleteWordLeft_word.simps [simp del]
  deleteWordRight_spaces.simps [simp del] deleteWordRight_word.simps [simp del]
  wordLeft_word.simps [simp del] shift_lines.simps [simp del]
  CursorDown_walk.simps [simp del] CursorUp_walk.simps [simp del]

lemma valid_row_ok: "valid m \<Longrightarrow> row_ok m"
  by (simp add: valid_def row_ok_def)

lemma cur_line_ok: "row_ok m \<Longrightarrow> cur_line m = Some (value' m ! nat (row m))"
  by (simp add: cur_line_def elem_at_def row_ok_def)

lemma clamp_range: "0 \<le> h \<Longrightarrow> 0 \<le> clamp c 0 h \<and> clamp c 0 h \<le> h"
  by (simp add: clamp_def)

lemma clamp_id: "0 \<le> c \<Longrightarrow> c \<le> h \<Longrightarrow> clamp c 0 h = c"
  by (simp add: clamp_def)

lemma len_nonneg [simp]: "0 \<le> len xs"
  by (simp add: len_def)

lemma SetCursor_ok:
  assumes "row_ok m"
  shows "SetCursor m c =
      Some (m\<lparr>col := clamp c 0 (len (value' m ! nat (row m))), lastCharOffset := 0\<rparr>)"
  using assms by (simp add: SetCursor_def cur_line_ok)

lemma SetCursor_valid: "row_ok m \<Longrightarrow> keeps_valid (SetCursor m c)"
  using clamp_range[of "len (value' m ! nat (row m))" c]
  by (simp add: SetCursor_ok keeps_valid_def valid_def row_ok_def)

lemma set_line_row [simp]: "row (set_line m l) = row m"
  by (simp add: set_line_def)

lemma set_line_col [simp]: "col (set_line m l) = col m"
  by (simp add: set_line_def)

lemma set_line_len [simp]: "len (value' (set_line m l)) = len (value' m)"
  by (simp add: set_line_def len_def)

lemma set_line_cur [simp]: "row_ok m \<Longrightarrow> value' (set_line m l) ! nat (row m) = l"
  by (simp add: set_line_def row_ok_def len_def nat_less_iff)

lemma set_line_row_ok [simp]: "row_ok m \<Longrightarrow> row_ok (set_line m l)"
  by (simp add: row_ok_def)

lemma slice_to_ok: "0 \<le> i \<Longrightarrow> i \<le> len l \<Longrightarrow> slice_to l i = Some (take (nat i) l)"
  by (simp add: slice_to_def)

lemma slice_from_ok: "0 \<le> i \<Longrightarrow> i \<le> len l \<Longrightarrow> slice_from l i = Some (drop (nat i) l)"
  by (simp add: slice_from_def)

lemma Reset_valid: "keeps_valid (Reset m)"
  unfolding Reset_def by (rule SetCursor_valid) (simp add: row_ok_def minHeight_def len_def)

lemma deleteBeforeCursor_valid:
  assumes "valid m"
  shows "keeps_valid (deleteBeforeCursor m)"
proof -
  have r: "row_ok m" using assms by (rule valid_row_ok)
  have "slice_from (value' m ! nat (row m)) (col m) = Some (drop (nat (col m)) (value' m ! nat (row m)))"
    using assms by (intro slice_from_ok) (simp_all add: valid_def)
  then show ?thesis
    using r by (simp add: deleteBeforeCursor_def cur_line_ok SetCursor_valid)
qed

lemma deleteAfterCursor_valid:
  assumes "valid m"
  shows "keeps_valid (deleteAfterCursor m)"
proof -
  have r: "row_ok m" using assms by (rule valid_row_ok)
  have "slice_to (value' m ! nat (row m)) (col m) = Some (take (nat (col m)) (value' m ! nat (row m)))"
    using assms by (intro slice_to_ok) (simp_all add: valid_def)
  then show ?thesis
    using r by (simp add: deleteAfterCursor_def cur_line_ok SetCursor_valid)
qed

lemma deleteWordLeft_spaces_ok:
  "row_ok m \<Longrightarrow> 0 \<le> col m \<Longrightarrow> col m < len (value' m ! nat (row m)) \<Longrightarrow>
   \<exists>m'. deleteWordLeft_spaces m = Some m' \<and> value' m' = value' m \<and> row m' = row m \<and>
        0 \<le> col m' \<and> col m' < len (value' m ! nat (row m))"
proof (induction m rule: deleteWordLeft_spaces.induct)
  case (1 m)
  let ?l = "value' m ! nat (row m)"
  have cl: "cur_line m = Some ?l" using "1.prems"(1) by (rule cur_line_ok)
  have el: "elem_at ?l (col m) = Some (?l ! nat (col m))"
    using "1.prems" by (simp add: elem_at_def)
  show ?case
  proof (cases "IsSpace (?l ! nat (col m)) \<and> \<not> col m \<le> 0")
    case False
    then show ?thesis
      using "1.prems" by (subst deleteWordLeft_spaces.simps) (auto simp: cl el)
  next
    case True
    let ?m' = "m\<lparr>col := clamp (col m - 1) 0 (len ?l), lastCharOffset := 0\<rparr>"
    have sc: "SetCursor m (col m - 1) = Some ?m'"
      using "1.prems"(1) by (rule SetCursor_ok)
    have c': "col ?m' = col m - 1"
      using True "1.prems" by (simp add: clamp_id)
    have "\<exists>m''. deleteWordLeft_spaces ?m' = Some m'' \<and> value' m'' = value' ?m' \<and>
        row m'' = row ?m' \<and> 0 \<le> col m'' \<and> col m'' < len (value' ?m' ! nat (row ?m'))"
      using True "1.prems" c'
      by (intro "1.IH"[OF cl el _ _ sc]) (simp_all add: row_ok_def)
    then show ?thesis
      using True by (subst deleteWordLeft_spaces.simps) (auto simp: cl el sc)
  qed
qed

lemma deleteWordLeft_word_ok:
  "row_ok m \<Longrightarrow> 0 \<le> col m \<Longrightarrow> col m < len (value' m ! nat (row m)) \<Longrightarrow>
   \<exists>m'. deleteWordLeft_word m = Some m' \<and> value' m' = value' m \<and> row m' = row m \<and>
        0 \<le> col m' \<and> col m' \<le> len (value' m ! nat (row m))"
proof (induction m rule: deleteWordLeft_word.induct)
  case (1 m)
  let ?l = "value' m ! nat (row m)"
  have cl: "cur_line m = Some ?l" using "1.prems"(1) by (rule cur_line_ok)
  have el: "elem_at ?l (col m) = Some (?l ! nat (col m))"
    using "1.prems" by (simp add: elem_at_def)
  show ?case
  proof (cases "col m > 0")
    case False
    then show ?thesis
      using "1.prems" by (subst deleteWordLeft_word.simps) auto
  next
    case pos: True
    show ?thesis
    proof (cases "IsSpace (?l ! nat (col m))")
      case True
      have "SetCursor m (col m + 1) =
          Some (m\<lparr>col := clamp (col m + 1) 0 (len ?l), lastCharOffset := 0\<rparr>)"
        using "1.prems"(1) by (rule SetCursor_ok)
      then show ?thesis
        using True pos clamp_range[of "len ?l" "col m + 1"]
        by (subst deleteWordLeft_word.simps) (auto simp: cl el)
    next
      case False
      let ?m' = "m\<lparr>col := clamp (col m - 1) 0 (len ?l), lastCharOffset := 0\<rparr>"
      have sc: "SetCursor m (col m - 1) = Some ?m'"
        using "1.prems"(1) by (rule SetCursor_ok)
      have c': "col ?m' = col m - 1"
        using pos "1.prems" by (simp add: clamp_id)
      have "\<exists>m''. deleteWordLeft_word ?m' = Some m'' \<and> value' m'' = value' ?m' \<and>
          row m'' = row ?m' \<and> 0 \<le> col m'' \<and> col m'' \<le> len (value' ?m' ! nat (row ?m'))"
        using pos "1.prems" c' False
        by (intro "1.IH"[OF pos cl el _ sc]) (simp_all add: row_ok_def)
      then show ?thesis
        using False pos by (subst deleteWordLeft_word.simps) (auto simp: cl el sc)
    qed
  qed
qed

lemma validI:
  "row_ok m \<Longrightarrow> 0 \<le> col m \<Longrightarrow> col m \<le> len (value' m ! nat (row m)) \<Longrightarrow> valid m"
  by (auto simp: valid_def row_ok_def)

lemma deleteWordLeft_valid:
  assumes v: "valid m"
  shows "keeps_valid (deleteWordLeft m)"
proof -
  let ?l = "value' m ! nat (row m)"
  have r: "row_ok m" using v by (rule valid_row_ok)
  have cl: "cur_line m = Some ?l" using r by (rule cur_line_ok)
  show ?thesis
  proof (cases "col m = 0 \<or> len ?l = 0")
    case True
    then show ?thesis using v by (auto simp: deleteWordLeft_def cl keeps_valid_def)
  next
    case False
    with v have c: "0 < col m" "col m \<le> len ?l" by (simp_all add: valid_def)
    let ?m1 = "m\<lparr>col := clamp (col m - 1) 0 (len ?l), lastCharOffset := 0\<rparr>"
    have s1: "SetCursor m (col m - 1) = Some ?m1" using r by (rule SetCursor_ok)
    have c1: "col ?m1 = col m - 1" using c by (simp add: clamp_id)
    have r1: "row_ok ?m1" using r by (simp add: row_ok_def)
    obtain m2 where m2: "deleteWordLeft_spaces ?m1 = Some m2" "value' m2 = value' m"
      "row m2 = row m" "0 \<le> col m2" "col m2 < len ?l"
      using deleteWordLeft_spaces_ok[OF r1] c c1 by auto
    have r2: "row_ok m2" using r m2 by (simp add: row_ok_def)
    obtain m3 where m3: "deleteWordLeft_word m2 = Some m3" "value' m3 = value' m"
      "row m3 = row m" "0 \<le> col m3" "col m3 \<le> len ?l"
      using deleteWordLeft_word_ok[OF r2] m2 by auto
    have r3: "row_ok m3" using r m3 by (simp add: row_ok_def)
    have cl3: "cur_line m3 = Some ?l" using cur_line_ok[OF r3] m3 by simp
    have h: "slice_to ?l (col m3) = Some (take (nat (col m3)) ?l)"
      using m3 by (intro slice_to_ok)
    have t: "slice_from ?l (col m) = Some (drop (nat (col m)) ?l)"
      using c by (intro slice_from_ok) simp_all
    let ?new = "take (nat (col m3)) ?l @ drop (nat (col m)) ?l"
    have res: "deleteWordLeft m = Some (set_line m3 ?new)"
      using False c by (simp add: deleteWordLeft_def cl s1 m2 m3 cl3 h t Let_def)
    have "col m3 \<le> len ?new"
      using m3 by (simp add: len_def)
    moreover have "value' (set_line m3 ?new) ! nat (row m3) = ?new"
      using r3 by (rule set_line_cur)
    ultimately have "valid (set_line m3 ?new)"
      using r3 m3 by (intro validI) simp_all
    then show ?thesis by (simp add: res keeps_valid_def)
  qed
qed

lemma deleteWordRight_spaces_ok:
  "row_ok m \<Longrightarrow> 0 \<le> col m \<Longrightarrow> col m \<le> len (value' m ! nat (row m)) \<Longrightarrow>
   \<exists>m'. deleteWordRight_spaces m = Some m' \<and> value' m' = value' m \<and> row m' = row m \<and>
        0 \<le> col m' \<and> col m' \<le> len (value' m ! nat (row m))"
proof (induction m rule: deleteWordRight_spaces.induct)
  case (1 m)
  let ?l = "value' m ! nat (row m)"
  have cl: "cur_line m = Some ?l" using "1.prems"(1) by (rule cur_line_ok)
  show ?case
  proof (cases "col m < len ?l \<and> IsSpace (?l ! nat (col m))")
    case False
    then show ?thesis
      using "1.prems" by (subst deleteWordRight_spaces.simps) (auto simp: cl elem_at_def)
  next
    case True
    have el: "elem_at ?l (col m) = Some (?l ! nat (col m))"
      using "1.prems" True by (simp add: elem_at_def)
    let ?m' = "m\<lparr>col := clamp (col m + 1) 0 (len ?l), lastCharOffset := 0\<rparr>"
    have sc: "SetCursor m (col m + 1) = Some ?m'"
      using "1.prems"(1) by (rule SetCursor_ok)
    have c': "col ?m' = col m + 1"
      using True "1.prems" by (simp add: clamp_id)
    have "\<exists>m''. deleteWordRight_spaces ?m' = Some m'' \<and> value' m'' = value' ?m' \<and>
        row m'' = row ?m' \<and> 0 \<le> col m'' \<and> col m'' \<le> len (value' ?m' ! nat (row ?m'))"
      using True "1.prems" c'
      by (intro "1.IH"[OF cl _ el _ sc]) (simp_all add: row_ok_def)
    then show ?thesis
      using True by (subst deleteWordRight_spaces.simps) (auto simp: cl el sc)
  qed
qed

lemma deleteWordRight_word_ok:
  "row_ok m \<Longrightarrow> 0 \<le> col m \<Longrightarrow> col m \<le> len (value' m ! nat (row m)) \<Longrightarrow>
   \<exists>m'. deleteWordRight_word m = Some m' \<and> value' m' = value' m \<and> row m' = row m \<and>
        0 \<le> col m' \<and> col m' \<le> len (value' m ! nat (row m))"
proof (induction m rule: deleteWordRight_word.induct)
  case (1 m)
  let ?l = "value' m ! nat (row m)"
  have cl: "cur_line m = Some ?l" using "1.prems"(1) by (rule cur_line_ok)
  show ?case
  proof (cases "col m < len ?l \<and> \<not> IsSpace (?l ! nat (col m))")
    case False
    then show ?thesis
      using "1.prems" by (subst deleteWordRight_word.simps) (auto simp: cl elem_at_def)
  next
    case True
    have el: "elem_at ?l (col m) = Some (?l ! nat (col m))"
      using "1.prems" True by (simp add: elem_at_def)
    let ?m' = "m\<lparr>col := clamp (col m + 1) 0 (len ?l), lastCharOffset := 0\<rparr>"
    have sc: "SetCursor m (col m + 1) = Some ?m'"
      using "1.prems"(1) by (rule SetCursor_ok)
    have c': "col ?m' = col m + 1"
      using True "1.prems" by (simp add: clamp_id)
    have "\<exists>m''. deleteWordRight_word ?m' = Some m'' \<and> value' m'' = value' ?m' \<and>
        row m'' = row ?m' \<and> 0 \<le> col m'' \<and> col m'' \<le> len (value' ?m' ! nat (row ?m'))"
      using True "1.prems" c'
      by (intro "1.IH"[OF cl _ el _ sc]) (simp_all add: row_ok_def)
    then show ?thesis
      using True by (subst deleteWordRight_word.simps) (auto simp: cl el sc)
  qed
qed

lemma deleteWordRight_valid:
  assumes v: "valid m"
  shows "keeps_valid (deleteWordRight m)"
proof -
  let ?l = "value' m ! nat (row m)"
  have r: "row_ok m" using v by (rule valid_row_ok)
  have cl: "cur_line m = Some ?l" using r by (rule cur_line_ok)
  show ?thesis
  proof (cases "col m \<ge> len ?l \<or> len ?l = 0")
    case True
    then show ?thesis using v by (auto simp: deleteWordRight_def cl keeps_valid_def)
  next
    case False
    with v have c: "0 \<le> col m" "col m \<le> len ?l" by (simp_all add: valid_def)
    obtain m2 where m2: "deleteWordRight_spaces m = Some m2" "value' m2 = value' m"
      "row m2 = row m" "0 \<le> col m2" "col m2 \<le> len ?l"
      using deleteWordRight_spaces_ok[OF r] c by auto
    have r2: "row_ok m2" using r m2 by (simp add: row_ok_def)
    obtain m3 where m3: "deleteWordRight_word m2 = Some m3" "value' m3 = value' m"
      "row m3 = row m" "0 \<le> col m3" "col m3 \<le> len ?l"
      using deleteWordRight_word_ok[OF r2] m2 by auto
    have r3: "row_ok m3" using r m3 by (simp add: row_ok_def)
    have cl3: "cur_line m3 = Some ?l" using cur_line_ok[OF r3] m3 by simp
    have h: "slice_to ?l (col m) = Some (take (nat (col m)) ?l)"
      using c by (intro slice_to_ok)
    have t: "slice_from ?l (col m3) = Some (drop (nat (col m3)) ?l)"
      using m3 by (intro slice_from_ok) simp_all
    let ?new = "take (nat (col m)) ?l @ drop (nat (col m3)) ?l"
    have res: "deleteWordRight m = SetCursor (set_line m3 ?new) (col m)"
      using False m3 by (simp add: deleteWordRight_def cl m2 cl3 h t Let_def)
    have "row_ok (set_line m3 ?new)"
      using r3 by simp
    then show ?thesis
      unfolding res by (rule SetCursor_valid)
  qed
qed

lemma shift_lines_length [simp]: "length (shift_lines v i) = length v"
proof (induction v i rule: shift_lines.induct)
  case (1 v i)
  then show ?case by (subst shift_lines.simps) simp
qed

lemma shift_lines_below: "0 \<le> i \<Longrightarrow> j < nat i \<Longrightarrow> shift_lines v i ! j = v ! j"
proof (induction v i rule: shift_lines.induct)
  case (1 v i)
  show ?case
  proof (cases "i < len v - 1")
    case True
    have "shift_lines (v[nat i := v ! nat (i + 1)]) (i + 1) ! j = v[nat i := v ! nat (i + 1)] ! j"
      using "1.prems" by (intro "1.IH"[OF True]) simp_all
    then show ?thesis
      using True "1.prems" by (subst shift_lines.simps) simp
  next
    case False
    then show ?thesis by (subst shift_lines.simps) simp
  qed
qed

lemma drop_last_line_length: "v \<noteq> [] \<Longrightarrow> len (drop_last_line v) = len v - 1"
  by (cases v) (simp_all add: drop_last_line_def len_def)

lemma drop_last_line_nth: "int j < len v - 1 \<Longrightarrow> drop_last_line v ! j = v ! j"
  by (simp add: drop_last_line_def len_def)

lemma mergeLineBelow_valid:
  assumes v: "valid m"
  shows "keeps_valid (mergeLineBelow m (row m))"
proof (cases "row m \<ge> len (value' m) - 1")
  case True
  then show ?thesis using v by (simp add: mergeLineBelow_def keeps_valid_def)
next
  case False
  let ?r = "row m"
  let ?a = "value' m ! nat ?r" and ?b = "value' m ! nat (?r + 1)"
  let ?v = "shift_lines ((value' m)[nat ?r := ?a @ ?b]) (?r + 1)"
  have r: "0 \<le> ?r" "?r < len (value' m) - 1" using v False by (simp_all add: valid_def)
  have res: "mergeLineBelow m ?r = Some (m\<lparr>value' := drop_last_line ?v\<rparr>)"
    using r False by (simp add: mergeLineBelow_def elem_at_def Let_def)
  have "length ?v \<noteq> 0" using r by (auto simp: len_def)
  then have ne: "?v \<noteq> []" by (metis list.size(3))
  have l: "len (drop_last_line ?v) = len (value' m) - 1"
    using drop_last_line_length[OF ne] by (simp add: len_def)
  have "drop_last_line ?v ! nat ?r = ?v ! nat ?r"
    using r by (intro drop_last_line_nth) (simp add: len_def)
  also have "\<dots> = (value' m)[nat ?r := ?a @ ?b] ! nat ?r"
    using r by (intro shift_lines_below) simp_all
  also have "\<dots> = ?a @ ?b"
    using r by (simp add: len_def nat_less_iff)
  finally have line: "drop_last_line ?v ! nat ?r = ?a @ ?b" .
  have "valid (m\<lparr>value' := drop_last_line ?v\<rparr>)"
    using v r l line by (simp add: valid_def len_def)
  then show ?thesis by (simp add: res keeps_valid_def)
qed

lemma mergeLineAbove_valid:
  assumes v: "valid m"
  shows "keeps_valid (mergeLineAbove m (row m))"
proof (cases "row m \<le> 0")
  case True
  then show ?thesis using v by (simp add: mergeLineAbove_def keeps_valid_def)
next
  case False
  let ?r = "row m"
  let ?a = "value' m ! nat (?r - 1)" and ?b = "value' m ! nat ?r"
  let ?v = "shift_lines ((value' m)[nat (?r - 1) := ?a @ ?b]) ?r"
  let ?m' = "m\<lparr>col := len ?a, row := ?r - 1, value' := drop_last_line ?v\<rparr>"
  have r: "0 < ?r" "?r < len (value' m)" using v False by (simp_all add: valid_def)
  have res: "mergeLineAbove m ?r = Some ?m'"
    using r False by (simp add: mergeLineAbove_def elem_at_def Let_def)
  have "length ?v \<noteq> 0" using r by (auto simp: len_def)
  then have ne: "?v \<noteq> []" by (metis list.size(3))
  have l: "len (drop_last_line ?v) = len (value' m) - 1"
    using drop_last_line_length[OF ne] by (simp add: len_def)
  have "drop_last_line ?v ! nat (?r - 1) = ?v ! nat (?r - 1)"
    using r by (intro drop_last_line_nth) (simp add: len_def)
  also have "\<dots> = (value' m)[nat (?r - 1) := ?a @ ?b] ! nat (?r - 1)"
    using r by (intro shift_lines_below) simp_all
  also have "\<dots> = ?a @ ?b"
    using r by (simp add: len_def nat_less_iff)
  finally have line: "drop_last_line ?v ! nat (?r - 1) = ?a @ ?b" .
  have "valid ?m'"
    using r l line by (simp add: valid_def len_def)
  then show ?thesis by (simp add: res keeps_valid_def)
qed

lemma splitLine_valid:
  assumes v: "valid m"
  shows "keeps_valid (splitLine m (row m) (col m))"
proof -
  let ?r = "row m" and ?c = "col m"
  let ?l = "value' m ! nat ?r"
  let ?v0 = "take (nat (?r + 1)) (value' m) @ drop (nat ?r) (value' m)"
  let ?v = "?v0[nat ?r := take (nat ?c) ?l, nat (?r + 1) := drop (nat ?c) ?l]"
  have r: "0 \<le> ?r" "?r < len (value' m)" "0 \<le> ?c" "?c \<le> len ?l"
    using v by (simp_all add: valid_def)
  have res: "splitLine m ?r ?c = Some (m\<lparr>value' := ?v, col := 0, row := ?r + 1\<rparr>)"
    using r by (simp add: splitLine_def elem_at_def slice_to_def slice_from_def Let_def)
  obtain n where n: "?r = int n"
    using r(1) by (rule nonneg_int_cases)
  have "nat (?r + 1) = Suc n"
    by (simp add: n nat_add_distrib)
  then have "len ?v = len (value' m) + 1"
    using r by (auto simp: len_def min_def n)
  then have "valid (m\<lparr>value' := ?v, col := 0, row := ?r + 1\<rparr>)"
    using r by (simp add: valid_def)
  then show ?thesis by (simp add: res keeps_valid_def)
qed

lemma clamp_col_valid:
  "valid m \<Longrightarrow> m\<lparr>col := clamp (col m) 0 (len (value' m ! nat (row m)))\<rparr> = m"
  by (simp add: valid_def clamp_id)

lemma clamp_valid:
  "valid m \<Longrightarrow> clamp (col m) 0 (len (value' m ! nat (row m))) = col m"
  by (simp add: valid_def clamp_id)

lemma Update_DeleteAfterCursor_valid:
  assumes v: "valid m"
  shows "keeps_valid (Update_DeleteAfterCursor m)"
  using v mergeLineBelow_valid[OF v] deleteAfterCursor_valid[OF v]
  by (simp add: Update_DeleteAfterCursor_def cur_line_ok valid_row_ok clamp_col_valid clamp_valid)

lemma Update_DeleteBeforeCursor_valid:
  assumes v: "valid m"
  shows "keeps_valid (Update_DeleteBeforeCursor m)"
  using v mergeLineAbove_valid[OF v] deleteBeforeCursor_valid[OF v]
  by (simp add: Update_DeleteBeforeCursor_def cur_line_ok valid_row_ok clamp_col_valid clamp_valid)

lemma Update_DeleteWordBackward_valid:
  assumes v: "valid m"
  shows "keeps_valid (Update_DeleteWordBackward m)"
  using mergeLineAbove_valid[OF v] deleteWordLeft_valid[OF v]
  by (simp add: Update_DeleteWordBackward_def)

lemma Update_DeleteWordForward_valid:
  assumes v: "valid m"
  shows "keeps_valid (Update_DeleteWordForward m)"
  using v mergeLineBelow_valid[OF v] deleteWordRight_valid[OF v]
  by (simp add: Update_DeleteWordForward_def cur_line_ok valid_row_ok clamp_col_valid clamp_valid)

lemma Update_InsertNewline_valid:
  assumes v: "valid m"
  shows "keeps_valid (Update_InsertNewline m)"
  using v splitLine_valid[OF v]
  by (simp add: Update_InsertNewline_def cur_line_ok valid_row_ok clamp_col_valid clamp_valid keeps_valid_def)

lemma Update_DeleteCharacterBackward_valid:
  assumes v: "valid m"
  shows "keeps_valid (Update_DeleteCharacterBackward m)"
proof (cases "col m \<le> 0")
  case True
  then show ?thesis
    using v mergeLineAbove_valid[OF v]
    by (simp add: Update_DeleteCharacterBackward_def cur_line_ok valid_row_ok clamp_col_valid clamp_valid)
next
  case False
  let ?l = "value' m ! nat (row m)"
  have r: "row_ok m" using v by (rule valid_row_ok)
  have c: "0 < col m" "col m \<le> len ?l" using v False by (simp_all add: valid_def)
  let ?new = "take (nat (col m - 1)) ?l @ drop (nat (col m)) ?l"
  have "Update_DeleteCharacterBackward m = SetCursor (set_line m ?new) (col m - 1)"
    using v c by (simp add: Update_DeleteCharacterBackward_def cur_line_ok r clamp_col_valid clamp_valid
        slice_to_def slice_from_def)
  moreover have "row_ok (set_line m ?new)" using r by simp
  ultimately show ?thesis by (simp add: SetCursor_valid)
qed

lemma Update_DeleteCharacterForward_tail:
  assumes v1: "valid m1"
  shows "keeps_valid
           (cur_line m1 \<bind> (\<lambda>l. if col m1 \<ge> len l then mergeLineBelow m1 (row m1) else Some m1))"
  using mergeLineBelow_valid[OF v1] v1
  by (simp add: cur_line_ok valid_row_ok keeps_valid_def)

lemma Update_DeleteCharacterForward_valid:
  assumes v: "valid m"
  shows "keeps_valid (Update_DeleteCharacterForward m)"
proof -
  let ?l = "value' m ! nat (row m)"
  have r: "row_ok m" using v by (rule valid_row_ok)
  have c: "0 \<le> col m" "col m \<le> len ?l" using v by (simp_all add: valid_def)
  let ?new = "take (nat (col m)) ?l @ drop (nat (col m + 1)) ?l"
  show ?thesis
  proof (cases "len ?l > 0 \<and> col m < len ?l")
    case True
    have "value' (set_line m ?new) ! nat (row m) = ?new"
      using r by (rule set_line_cur)
    moreover have "col m \<le> len ?new"
    proof -
      obtain n where n: "col m = int n"
        using c(1) by (rule nonneg_int_cases)
      have "nat (col m + 1) = Suc n"
        by (simp add: n nat_add_distrib)
      then show ?thesis using True by (simp add: len_def n)
    qed
    ultimately have v1: "valid (set_line m ?new)"
      using r c by (intro validI) simp_all
    have "Update_DeleteCharacterForward m =
        cur_line (set_line m ?new) \<bind>
          (\<lambda>l. if col (set_line m ?new) \<ge> len l
               then mergeLineBelow (set_line m ?new) (row (set_line m ?new))
               else Some (set_line m ?new))"
      using True c
      by (simp add: Update_DeleteCharacterForward_def cur_line_ok[OF r] slice_to_def
          slice_from_def)
    then show ?thesis
      using Update_DeleteCharacterForward_tail[OF v1] by simp
  next
    case False
    then have "Update_DeleteCharacterForward m =
        cur_line m \<bind> (\<lambda>l. if col m \<ge> len l then mergeLineBelow m (row m) else Some m)"
      by (auto simp: Update_DeleteCharacterForward_def cur_line_ok[OF r])
    then show ?thesis
      using Update_DeleteCharacterForward_tail[OF v] by simp
  qed
qed

lemma insert_fold:
  "row (foldl (\<lambda>m l. (set_line (m\<lparr>row := row m + 1\<rparr>) l)\<lparr>col := len l\<rparr>) m ls) = row m + len ls \<and>
   len (value' (foldl (\<lambda>m l. (set_line (m\<lparr>row := row m + 1\<rparr>) l)\<lparr>col := len l\<rparr>) m ls)) =
     len (value' m)"
proof (induction ls arbitrary: m)
  case Nil
  show ?case by (simp add: len_def)
next
  case (Cons a ls)
  show ?case
    using Cons[of "(set_line (m\<lparr>row := row m + 1\<rparr>) a)\<lparr>col := len a\<rparr>"]
    by (simp add: len_def set_line_def)
qed

lemma insert_lines_valid:
  assumes v: "valid m" and ne: "lines \<noteq> []"
  shows "keeps_valid (insert_lines m lines)"
proof -
  let ?l = "value' m ! nat (row m)"
  let ?step = "\<lambda>m l. (set_line (m\<lparr>row := row m + 1\<rparr>) l)\<lparr>col := len l\<rparr>"
  have r: "row_ok m" using v by (rule valid_row_ok)
  have c: "0 \<le> col m" "col m \<le> len ?l" using v by (simp_all add: valid_def)
  let ?m1 = "(set_line m (take (nat (col m)) ?l @ hd lines))\<lparr>col := col m + len (hd lines)\<rparr>"
  let ?n = "len lines - 1"
  let ?grid = "take (nat (row ?m1 + 1)) (value' ?m1) @ replicate (nat ?n) [] @
               drop (nat (row ?m1 + 1)) (value' ?m1)"
  let ?m2 = "if ?n > 0 then foldl ?step (?m1\<lparr>value' := ?grid\<rparr>) (tl lines) else ?m1"
  have r1: "row_ok ?m1" using r by (simp add: row_ok_def)
  have r2: "row_ok ?m2"
  proof (cases "?n > 0")
    case False
    then show ?thesis using r1 by simp
  next
    case True
    have rows: "0 \<le> row m" "row m < len (value' m)" using r by (simp_all add: row_ok_def)
    then obtain k where k: "row m = int k" by (auto elim: nonneg_int_cases)
    have "nat (row m + 1) = Suc k" by (simp add: k nat_add_distrib)
    then have g: "len ?grid = len (value' m) + ?n"
      using rows True ne by (simp add: len_def k set_line_def min_def)
    have t: "len (tl lines) = ?n" using ne by (cases lines) (simp_all add: len_def)
    have "row (foldl ?step (?m1\<lparr>value' := ?grid\<rparr>) (tl lines)) = row m + ?n"
      using insert_fold[of "?m1\<lparr>value' := ?grid\<rparr>" "tl lines"] t by simp
    moreover have "len (value' (foldl ?step (?m1\<lparr>value' := ?grid\<rparr>) (tl lines))) =
        len (value' m) + ?n"
      using insert_fold[of "?m1\<lparr>value' := ?grid\<rparr>" "tl lines"] g by simp
    ultimately show ?thesis
      using True rows by (simp add: row_ok_def)
  qed
  let ?l2 = "value' ?m2 ! nat (row ?m2)"
  let ?m3 = "set_line ?m2 (?l2 @ drop (nat (col m)) ?l)"
  have "insert_lines m lines = SetCursor ?m3 (col ?m3)"
    using c cur_line_ok[OF r2]
    by (simp add: insert_lines_def cur_line_ok[OF r] slice_to_def slice_from_def Let_def
        cong: if_cong)
  moreover have "row_ok ?m3" using r2 by (rule set_line_row_ok)
  ultimately show ?thesis by (simp only: SetCursor_valid)
qed

lemma insertRunesFromUserInput_valid:
  assumes v: "valid m"
  shows "keeps_valid (insertRunesFromUserInput sw m rs)"
proof -
  have "keeps_valid (if len lines = 0 then Some m else insert_lines m lines)" for lines
    using v insert_lines_valid[OF v, of lines] by (auto simp: keeps_valid_def len_def)
  then show ?thesis
    using v by (simp add: insertRunesFromUserInput_def Let_def keeps_valid_def)
qed

lemma characterLeft_at_start: "row m = 0 \<Longrightarrow> col m = 0 \<Longrightarrow> characterLeft m True = Some m"
  by (simp add: characterLeft_def)

lemma wordLeft_scan_stuck:
  assumes "wordLeft_scan m = Some y"
  shows "\<not> stuck_at_start m"
proof (rule wordLeft_scan.raw_induct[where P = "\<lambda>m y. \<not> stuck_at_start m", OF _ assms],
    goal_cases)
  case (1 scan m y)
  note hyps = 1(2)
  show ?case
  proof
    assume s: "stuck_at_start m"
    then obtain l ls where v: "value' m = l # ls" and l: "l = [] \<or> IsSpace (hd l)"
      and rc: "row m = 0" "col m = 0"
      by (auto simp: stuck_at_start_def split: list.splits)
    have cl: "cur_line m = Some l"
      using v rc by (simp add: cur_line_def elem_at_def len_def)
    have "scan m = Some y"
    proof (cases "l = []")
      case True
      with hyps rc cl show ?thesis
        by (simp add: characterLeft_at_start len_def)
    next
      case False
      with l have "IsSpace (hd l)" by simp
      moreover have "elem_at l 0 = Some (hd l)"
        using False by (cases l) (simp_all add: elem_at_def len_def)
      ultimately show ?thesis
        using hyps rc cl False by (simp add: characterLeft_at_start len_def)
    qed
    with 1(1) s show False by blast
  qed
qed

lemma wordLeft_stuck: "stuck_at_start m \<Longrightarrow> wordLeft m = None"
  using wordLeft_scan_stuck[of m] by (cases "wordLeft_scan m") (auto simp: wordLeft_def)

lemma runes_ahead_split:
  assumes "valid m"
  shows "runes_ahead m =
     Suc (length (value' m ! nat (row m))) +
     sum_list (map (\<lambda>l. Suc (length l)) (drop (Suc (nat (row m))) (value' m))) - nat (col m)"
proof -
  have "nat (row m) < length (value' m)"
    using assms by (simp add: valid_def len_def nat_less_iff)
  then have "drop (nat (row m)) (value' m) =
      value' m ! nat (row m) # drop (Suc (nat (row m))) (value' m)"
    by (simp add: Cons_nth_drop_Suc)
  then show ?thesis by (simp add: runes_ahead_def)
qed

lemma characterRight_advances:
  assumes v: "valid m"
    and more: "\<not> (row m = len (value' m) - 1 \<and> col m = len (value' m ! nat (row m)))"
  shows "\<exists>m'. characterRight m = Some m' \<and> valid m' \<and> runes_ahead m' < runes_ahead m"
proof -
  let ?l = "value' m ! nat (row m)"
  have r: "row_ok m" using v by (rule valid_row_ok)
  have c: "0 \<le> col m" "col m \<le> len ?l" "0 \<le> row m" "row m < len (value' m)"
    using v by (simp_all add: valid_def)
  show ?thesis
  proof (cases "col m < len ?l")
    case True
    let ?m' = "m\<lparr>col := col m + 1, lastCharOffset := 0\<rparr>"
    have "characterRight m = Some ?m'"
      using True c by (simp add: characterRight_def cur_line_ok[OF r] SetCursor_ok[OF r] clamp_id)
    moreover have "valid ?m'"
      using v True by (simp add: valid_def)
    moreover have "runes_ahead ?m' < runes_ahead m"
    proof -
      have "valid ?m'" by fact
      then show ?thesis
        using True c by (simp add: runes_ahead_split v nat_add_distrib len_def)
    qed
    ultimately show ?thesis by blast
  next
    case False
    with c have col: "col m = len ?l" by simp
    with more c have nl: "row m < len (value' m) - 1" by simp
    let ?m1 = "m\<lparr>row := row m + 1\<rparr>"
    let ?m' = "?m1\<lparr>col := clamp 0 0 (len (value' ?m1 ! nat (row ?m1))), lastCharOffset := 0\<rparr>"
    have r1: "row_ok ?m1" using c nl by (simp add: row_ok_def)
    have "characterRight m = Some ?m'"
      using False nl by (simp add: characterRight_def cur_line_ok[OF r] CursorStart_def
          SetCursor_ok[OF r1])
    moreover have v': "valid ?m'"
      using c nl by (simp add: valid_def clamp_def)
    moreover have "runes_ahead ?m' < runes_ahead m"
    proof -
      have "nat (row m + 1) = Suc (nat (row m))"
        using c by (simp add: nat_add_distrib)
      then have "runes_ahead ?m' =
          sum_list (map (\<lambda>l. Suc (length l)) (drop (Suc (nat (row m))) (value' m)))"
        by (simp add: runes_ahead_def clamp_def)
      then show ?thesis
        using col by (simp add: runes_ahead_split v len_def)
    qed
    ultimately show ?thesis by blast
  qed
qed

lemma doWordRight_skip_returns:
  "valid m \<Longrightarrow> \<exists>m'. doWordRight_skip m = Some (Some m') \<and> valid m'"
proof (induction "runes_ahead m" arbitrary: m rule: less_induct)
  case less
  let ?l = "value' m ! nat (row m)"
  have r: "row_ok m" using less.prems by (rule valid_row_ok)
  have cl: "cur_line m = Some ?l" using r by (rule cur_line_ok)
  have c: "0 \<le> col m" "col m \<le> len ?l" using less.prems by (simp_all add: valid_def)
  let ?end = "row m = len (value' m) - 1 \<and> col m = len ?l"
  have step: "\<exists>m'. (case characterRight m of None \<Rightarrow> Some None
                     | Some m \<Rightarrow> doWordRight_skip m) = Some (Some m') \<and> valid m'"
    if more: "\<not> ?end"
  proof -
    obtain m1 where m1: "characterRight m = Some m1" "valid m1" "runes_ahead m1 < runes_ahead m"
      using characterRight_advances[OF less.prems more] by blast
    from less.hyps[OF m1(3) m1(2)] m1(1) show ?thesis by simp
  qed
  show ?case
  proof (cases "col m \<ge> len ?l")
    case True
    show ?thesis
    proof (cases ?end)
      case True
      then show ?thesis
        using less.prems by (subst doWordRight_skip.simps) (simp add: cl)
    next
      case False
      with step True show ?thesis
        by (subst doWordRight_skip.simps) (auto simp: cl)
    qed
  next
    case False
    then have el: "elem_at ?l (col m) = Some (?l ! nat (col m))"
      using c by (simp add: elem_at_def)
    from False have ne: "\<not> ?end" by simp
    show ?thesis
    proof (cases "IsSpace (?l ! nat (col m))")
      case True
      with step[OF ne] False ne show ?thesis
        by (subst doWordRight_skip.simps) (auto simp: cl el)
    next
      case nsp: False
      then show ?thesis
        using less.prems False by (subst doWordRight_skip.simps) (simp add: cl el)
    qed
  qed
qed

lemma doWordRight_word_returns:
  "valid m \<Longrightarrow>
   \<exists>m'. doWordRight_word (\<lambda>charIdx pos m. Some m) i m = Some (Some m') \<and> valid m'"
proof (induction "nat (len (value' m ! nat (row m)) - col m)" arbitrary: m i rule: less_induct)
  case less
  let ?l = "value' m ! nat (row m)"
  have r: "row_ok m" using less.prems by (rule valid_row_ok)
  have cl: "cur_line m = Some ?l" using r by (rule cur_line_ok)
  have c: "0 \<le> col m" "col m \<le> len ?l" using less.prems by (simp_all add: valid_def)
  show ?case
  proof (cases "col m < len ?l \<and> \<not> IsSpace (?l ! nat (col m))")
    case False
    then show ?thesis
      using less.prems c by (subst doWordRight_word.simps) (auto simp: cl elem_at_def)
  next
    case True
    have el: "elem_at ?l (col m) = Some (?l ! nat (col m))"
      using c True by (simp add: elem_at_def)
    let ?m' = "m\<lparr>col := col m + 1, lastCharOffset := 0\<rparr>"
    have sc: "SetCursor m (col m + 1) = Some ?m'"
      using True c by (simp add: SetCursor_ok[OF r] clamp_id)
    have v': "valid ?m'" using less.prems True by (simp add: valid_def)
    have "\<exists>m''. doWordRight_word (\<lambda>charIdx pos m. Some m) (i + 1) ?m' = Some (Some m'') \<and>
        valid m''"
      using True by (intro less.hyps v') simp
    then show ?thesis
      using True by (subst doWordRight_word.simps) (simp add: cl el sc)
  qed
qed

lemma wordRight_returns: "valid m \<Longrightarrow> \<exists>m'. wordRight m = Some (Some m') \<and> valid m'"
proof -
  assume "valid m"
  then obtain m1 where "doWordRight_skip m = Some (Some m1)" "valid m1"
    using doWordRight_skip_returns by blast
  then show ?thesis
    using doWordRight_word_returns[of m1 0] by (simp add: wordRight_def doWordRight_def)
qed

text \<open>
  Claim C6. Every mutating buffer operation, started in a valid model, returns and
  leaves a valid model: the buffer has at least one line, the cursor row indexes a line,
  and the cursor column is between 0 and the length of that line. The operations are the
  insertion of runes, the deletions by character, by word and to the line ends as Update
  dispatches them, the merge with the line above or below and the split, applied at the
  cursor as every call of them is, and the reset.
\<close>

theorem buffer_operations_keep_valid:
  assumes "valid m"
  shows "keeps_valid (insertRunesFromUserInput sw m rs) \<and>
         keeps_valid (Update_DeleteCharacterBackward m) \<and>
         keeps_valid (Update_DeleteCharacterForward m) \<and>
         keeps_valid (Update_DeleteWordBackward m) \<and>
         keeps_valid (Update_DeleteWordForward m) \<and>
         keeps_valid (Update_DeleteBeforeCursor m) \<and>
         keeps_valid (Update_DeleteAfterCursor m) \<and>
         keeps_valid (deleteWordLeft m) \<and>
         keeps_valid (deleteWordRight m) \<and>
         keeps_valid (deleteBeforeCursor m) \<and>
         keeps_valid (deleteAfterCursor m) \<and>
         keeps_valid (mergeLineAbove m (row m)) \<and>
         keeps_valid (mergeLineBelow m (row m)) \<and>
         keeps_valid (splitLine m (row m) (col m)) \<and>
         keeps_valid (Update_InsertNewline m) \<and>
         keeps_valid (Reset m)"
  using assms
  by (simp only: insertRunesFromUserInput_valid Update_DeleteCharacterBackward_valid
      Update_DeleteCharacterForward_valid Update_DeleteWordBackward_valid
      Update_DeleteWordForward_valid Update_DeleteBeforeCursor_valid
      Update_DeleteAfterCursor_valid deleteWordLeft_valid deleteWordRight_valid
      deleteBeforeCursor_valid deleteAfterCursor_valid mergeLineAbove_valid
      mergeLineBelow_valid splitLine_valid Update_InsertNewline_valid Reset_valid simp_thms)

theorem buffer_operations_keep_valid_witness:
  "valid sample_model \<and>
   keeps_valid (insertRunesFromUserInput (StringWidth RuneWidth) sample_model [0x78, 0x0A, 0x79, 0x0A, 0x7A]) \<and>
   keeps_valid (Update_DeleteCharacterBackward sample_model) \<and>
   keeps_valid (Update_DeleteWordBackward sample_model) \<and>
   keeps_valid (mergeLineBelow sample_model (row sample_model)) \<and>
   keeps_valid (splitLine sample_model (row sample_model) (col sample_model)) \<and>
   keeps_valid (Reset sample_model)"
proof -
  have v: "valid sample_model"
    by (simp add: valid_def sample_model_def model_at_def len_def runes_of_def)
  show ?thesis
    using v buffer_operations_keep_valid[OF v, of "StringWidth RuneWidth" "[0x78, 0x0A, 0x79, 0x0A, 0x7A]"]
    by simp
qed

subsection \<open>The cache is transparent\<close>

text \<open>
  On a coherent cache, and for a line that its hash identifies (no invalid rune),
  \<^verbatim>\<open>memoizedWrap\<close> returns what \<open>wrap\<close> returns and leaves a coherent cache, so that
  \<^verbatim>\<open>LineInfo\<close> is the scan of the wrapped line.
\<close>

lemma memoizedWrap_coherent:
  assumes "cache_coherent sw rw (Model.cache m)" and hk: "line_Hash (rs, w) = (rs, w)"
  shows "memoizedWrap sw rw m rs w = (wrap sw rw rs w, memo_cache sw rw (Model.cache m) rs w)"
    and "cache_coherent sw rw (memo_cache sw rw (Model.cache m) rs w)"
proof -
  let ?c = "Model.cache m"
  have inv: "cache_inv ?c" using assms by (simp add: cache_coherent_def)
  have val: "fst (Get line_Hash ?c (rs, w)) = map_of (cache_assoc ?c) (rs, w)"
    by (simp add: Get_value[OF inv] lru_get_value hk)
  have inv': "cache_inv (snd (Get line_Hash ?c (rs, w)))" using inv by (rule Get_inv)
  have as': "map_of (cache_assoc (snd (Get line_Hash ?c (rs, w)))) k = map_of (cache_assoc ?c) k" for k
    by (simp add: Get_assoc[OF inv] map_of_lru_get)
  show "memoizedWrap sw rw m rs w = (wrap sw rw rs w, memo_cache sw rw (Model.cache m) rs w)"
  proof (cases "fst (Get line_Hash ?c (rs, w))")
    case None
    then show ?thesis
      by (cases "Get line_Hash ?c (rs, w)") (simp add: memoizedWrap_def memo_cache_def Let_def)
  next
    case (Some v)
    with val assms have "v = wrap sw rw rs w" by (simp add: cache_coherent_def)
    with Some show ?thesis
      by (cases "Get line_Hash ?c (rs, w)") (simp add: memoizedWrap_def memo_cache_def Let_def)
  qed
  show "cache_coherent sw rw (memo_cache sw rw (Model.cache m) rs w)"
  proof (cases "fst (Get line_Hash ?c (rs, w))")
    case (Some v)
    then have "memo_cache sw rw ?c rs w = snd (Get line_Hash ?c (rs, w))"
      by (cases "Get line_Hash ?c (rs, w)") (simp add: memo_cache_def)
    then show ?thesis using assms inv' as' by (simp add: cache_coherent_def)
  next
    case None
    let ?c' = "snd (Get line_Hash ?c (rs, w))"
    have mc: "memo_cache sw rw ?c rs w = Set line_Hash ?c' (rs, w) (wrap sw rw rs w)"
      using None by (cases "Get line_Hash ?c (rs, w)") (simp add: memo_cache_def)
    have "cache_inv (Set line_Hash ?c' (rs, w) (wrap sw rw rs w))"
      using inv' by (rule Set_inv)
    moreover have "v = wrap sw rw rs' w'"
      if "map_of (cache_assoc (Set line_Hash ?c' (rs, w) (wrap sw rw rs w))) (rs', w') = Some v"
      for rs' w' v
    proof -
      from that have "map_of (lru_set (capacity ?c') (rs, w) (wrap sw rw rs w) (cache_assoc ?c'))
          (rs', w') = Some v"
        by (simp add: Set_assoc[OF inv'] hk)
      then have "((rs', w') = (rs, w) \<and> v = wrap sw rw rs w) \<or>
          ((rs', w') \<noteq> (rs, w) \<and> map_of (cache_assoc ?c') (rs', w') = Some v)"
        by (rule map_of_lru_set)
      then show ?thesis using assms as' by (auto simp: cache_coherent_def)
    qed
    ultimately show ?thesis unfolding mc cache_coherent_def by blast
  qed
qed

lemma memo_cache_coherent:
  assumes "cache_coherent sw rw c" and "line_Hash (rs, w) = (rs, w)"
  shows "cache_coherent sw rw (memo_cache sw rw c rs w)"
  using memoizedWrap_coherent(2)[of sw rw "\<lparr>Model.cache = c, CharLimit = 0, MaxHeight = 0,
    width = 0, value' = [], col = 0, row = 0, lastCharOffset = 0\<rparr>" rs w] assms
  by simp

lemma NewMemoCache_coherent: "cache_coherent sw rw (NewMemoCache cap)"
  by (simp add: cache_coherent_def NewMemoCache_inv NewMemoCache_assoc)

lemma LineInfo_coherent:
  assumes "cache_coherent sw rw (Model.cache m)" and "cur_line m = Some l"
    and "line_Hash (l, width m) = (l, width m)"
  shows "LineInfo sw rw m =
     Some (LineInfo_scan sw (col m) (len (wrap sw rw l (width m))) (wrap sw rw l (width m)) 0 0,
           memo_cache sw rw (Model.cache m) l (width m))"
  using assms by (simp add: LineInfo_def memoizedWrap_coherent(1))

subsection \<open>The cursor scenarios, step by step\<close>

lemma model_at_with: "model_at w v r c = model_with (NewMemoCache maxLines) w v r c 0"
  by (simp add: model_at_def model_with_def)

lemma wrap_scenario:
  assumes "21 \<le> w"
  shows "wrap (StringWidth RuneWidth) RuneWidth (runes_of ''Hello'') w = [runes_of ''Hello '']"
    and "wrap (StringWidth RuneWidth) RuneWidth (runes_of ''World'') w = [runes_of ''World '']"
    and "wrap (StringWidth RuneWidth) RuneWidth (runes_of ''This is a long line.'') w = [runes_of ''This is a long line. '']"
  using assms
  by (simp_all add: wrap_def wrap_step.simps runes_of_def IsSpace_def StringWidth_def RuneWidth_def
      repeatSpaces_def Let_def len_def)

lemma wrap_wide:
  assumes "10 \<le> w"
  shows "wrap (StringWidth RuneWidth) RuneWidth [0x4F60, 0x597D, 0x4F60, 0x597D] w = [[0x4F60, 0x597D, 0x4F60, 0x597D, 0x20]]"
    and "wrap (StringWidth RuneWidth) RuneWidth (runes_of ''Hello'') w = [runes_of ''Hello '']"
  using assms
  by (simp_all add: wrap_def wrap_step.simps runes_of_def IsSpace_def StringWidth_def RuneWidth_def
      repeatSpaces_def Let_def len_def)

lemmas wrap_scenario_runes = wrap_scenario [simplified runes_of_def, simplified]
lemmas wrap_wide_runes = wrap_wide [simplified runes_of_def, simplified]

lemmas move_eval = CursorUp_def CursorDown_def LineInfo_coherent memo_cache_coherent
  cur_line_def elem_at_def len_def Let_def model_with_def
  CursorUp_walk.simps CursorDown_walk.simps StringWidth_def RuneWidth_def runes_of_def
  line_Hash_def string_rune_def

lemma scenario_up_from_2:
  assumes "21 \<le> w" "cache_coherent (StringWidth RuneWidth) RuneWidth c"
  shows "\<exists>c'. cache_coherent (StringWidth RuneWidth) RuneWidth c' \<and>
    CursorUp (StringWidth RuneWidth) RuneWidth (model_with c w scenario_lines 2 20 0) =
      Some (model_with c' w scenario_lines 1 5 20)"
  using assms by (simp add: move_eval scenario_lines_def wrap_scenario_runes)

lemma scenario_up_from_1:
  assumes "21 \<le> w" "cache_coherent (StringWidth RuneWidth) RuneWidth c"
  shows "\<exists>c'. cache_coherent (StringWidth RuneWidth) RuneWidth c' \<and>
    CursorUp (StringWidth RuneWidth) RuneWidth (model_with c w scenario_lines 1 5 20) =
      Some (model_with c' w scenario_lines 0 5 20)"
  using assms by (simp add: move_eval scenario_lines_def wrap_scenario_runes)

lemma scenario_down_from_0:
  assumes "21 \<le> w" "cache_coherent (StringWidth RuneWidth) RuneWidth c"
  shows "\<exists>c'. cache_coherent (StringWidth RuneWidth) RuneWidth c' \<and>
    CursorDown (StringWidth RuneWidth) RuneWidth (model_with c w scenario_lines 0 5 20) =
      Some (model_with c' w scenario_lines 1 5 20)"
  using assms by (simp add: move_eval scenario_lines_def wrap_scenario_runes)

lemma scenario_down_from_1:
  assumes "21 \<le> w" "cache_coherent (StringWidth RuneWidth) RuneWidth c"
  shows "\<exists>c'. cache_coherent (StringWidth RuneWidth) RuneWidth c' \<and>
    CursorDown (StringWidth RuneWidth) RuneWidth (model_with c w scenario_lines 1 5 20) =
      Some (model_with c' w scenario_lines 2 20 20)"
  using assms by (simp add: move_eval scenario_lines_def wrap_scenario_runes)

lemma scenario_left:
  "characterLeft (model_with c w scenario_lines 1 5 20) False =
     Some (model_with c w scenario_lines 1 4 0)"
  by (simp add: characterLeft_def SetCursor_def clamp_def cur_line_def elem_at_def len_def
      model_with_def scenario_lines_def runes_of_def Let_def)

lemma scenario_down_after_left:
  assumes "21 \<le> w" "cache_coherent (StringWidth RuneWidth) RuneWidth c"
  shows "\<exists>c'. cache_coherent (StringWidth RuneWidth) RuneWidth c' \<and>
    CursorDown (StringWidth RuneWidth) RuneWidth (model_with c w scenario_lines 1 4 0) =
      Some (model_with c' w scenario_lines 2 4 4)"
  using assms by (simp add: move_eval scenario_lines_def wrap_scenario_runes)

lemma wide_info:
  assumes "10 \<le> w" "cache_coherent (StringWidth RuneWidth) RuneWidth c"
  shows "map_option (\<lambda>(li, c). CharOffset li) (LineInfo (StringWidth RuneWidth) RuneWidth (model_with c w wide_lines 0 2 0)) =
     Some 4"
  using assms by (simp add: move_eval wide_lines_def wrap_wide_runes)

lemma wide_down:
  assumes "10 \<le> w" "cache_coherent (StringWidth RuneWidth) RuneWidth c"
  shows "\<exists>c'. cache_coherent (StringWidth RuneWidth) RuneWidth c' \<and>
    CursorDown (StringWidth RuneWidth) RuneWidth (model_with c w wide_lines 0 2 0) =
      Some (model_with c' w wide_lines 1 4 4)"
  using assms by (simp add: move_eval wide_lines_def wrap_wide_runes)

lemma cursor_model_with: "cursor (Some (model_with c w v r co lo)) = Some (r, co)"
  by (simp add: cursor_def model_with_def)

text \<open>
  Claim C3. The buffer holds the lines "Hello", "World" and "This is a long line." at
  any width of at least 21, the widths at which none of them wraps, and the cursor is at
  row 2, column 20. One \<^verbatim>\<open>CursorUp\<close> lands at row 1, column 5; a second one at row 0, column
  5; two \<^verbatim>\<open>CursorDown\<close> calls then lead through row 1, column 5 back to row 2, column 20.
  When instead, at row 1, column 5, one \<^verbatim>\<open>characterLeft\<close> moves to column 4, the next
  \<^verbatim>\<open>CursorDown\<close> lands at row 2, column 4.
\<close>

theorem cursor_vertical_memory:
  assumes "21 \<le> w"
  shows
  "cursor (CursorUp (StringWidth RuneWidth) RuneWidth (model_at w scenario_lines 2 20)) = Some (1, 5) \<and>
   cursor (CursorUp (StringWidth RuneWidth) RuneWidth (model_at w scenario_lines 2 20) \<bind> CursorUp (StringWidth RuneWidth) RuneWidth) =
     Some (0, 5) \<and>
   cursor (CursorUp (StringWidth RuneWidth) RuneWidth (model_at w scenario_lines 2 20) \<bind> CursorUp (StringWidth RuneWidth) RuneWidth \<bind>
           CursorDown (StringWidth RuneWidth) RuneWidth) = Some (1, 5) \<and>
   cursor (CursorUp (StringWidth RuneWidth) RuneWidth (model_at w scenario_lines 2 20) \<bind> CursorUp (StringWidth RuneWidth) RuneWidth \<bind>
           CursorDown (StringWidth RuneWidth) RuneWidth \<bind> CursorDown (StringWidth RuneWidth) RuneWidth) = Some (2, 20) \<and>
   cursor (CursorUp (StringWidth RuneWidth) RuneWidth (model_at w scenario_lines 2 20) \<bind>
           (\<lambda>m. characterLeft m False)) = Some (1, 4) \<and>
   cursor (CursorUp (StringWidth RuneWidth) RuneWidth (model_at w scenario_lines 2 20) \<bind>
           (\<lambda>m. characterLeft m False) \<bind> CursorDown (StringWidth RuneWidth) RuneWidth) = Some (2, 4)"
proof -
  let ?m = "model_at w scenario_lines 2 20"
  have c0: "cache_coherent (StringWidth RuneWidth) RuneWidth (NewMemoCache maxLines)" by (rule NewMemoCache_coherent)
  from scenario_up_from_2[OF assms c0] obtain c1
    where c1: "cache_coherent (StringWidth RuneWidth) RuneWidth c1"
      and s1: "CursorUp (StringWidth RuneWidth) RuneWidth ?m = Some (model_with c1 w scenario_lines 1 5 20)"
    by (auto simp: model_at_with)
  from scenario_up_from_1[OF assms c1] obtain c2
    where c2: "cache_coherent (StringWidth RuneWidth) RuneWidth c2"
      and s2: "CursorUp (StringWidth RuneWidth) RuneWidth (model_with c1 w scenario_lines 1 5 20) =
                 Some (model_with c2 w scenario_lines 0 5 20)"
    by auto
  from scenario_down_from_0[OF assms c2] obtain c3
    where c3: "cache_coherent (StringWidth RuneWidth) RuneWidth c3"
      and s3: "CursorDown (StringWidth RuneWidth) RuneWidth (model_with c2 w scenario_lines 0 5 20) =
                 Some (model_with c3 w scenario_lines 1 5 20)"
    by auto
  from scenario_down_from_1[OF assms c3] obtain c4
    where s4: "CursorDown (StringWidth RuneWidth) RuneWidth (model_with c3 w scenario_lines 1 5 20) =
                 Some (model_with c4 w scenario_lines 2 20 20)"
    by auto
  from scenario_down_after_left[OF assms c1] obtain c5
    where s5: "CursorDown (StringWidth RuneWidth) RuneWidth (model_with c1 w scenario_lines 1 4 0) =
                 Some (model_with c5 w scenario_lines 2 4 4)"
    by auto
  show ?thesis
    by (simp add: s1 s2 s3 s4 s5 scenario_left cursor_model_with)
qed

theorem cursor_vertical_memory_witness:
  "cursor (CursorUp (StringWidth RuneWidth) RuneWidth (model_at 40 scenario_lines 2 20) \<bind> CursorUp (StringWidth RuneWidth) RuneWidth \<bind>
           CursorDown (StringWidth RuneWidth) RuneWidth \<bind> CursorDown (StringWidth RuneWidth) RuneWidth) = Some (2, 20) \<and>
   cursor (CursorUp (StringWidth RuneWidth) RuneWidth (model_at 40 scenario_lines 2 20) \<bind>
           (\<lambda>m. characterLeft m False) \<bind> CursorDown (StringWidth RuneWidth) RuneWidth) = Some (2, 4)"
  using cursor_vertical_memory[of 40] by simp

text \<open>
  Claim C7. The buffer holds a line of four double-width glyphs (display width 8) and
  the line "Hello" (display width 5), at any width of at least 10, the widths at which
  neither line wraps, and the cursor is on the wide line at rune offset 2. \<^verbatim>\<open>LineInfo\<close>
  reports the display offset \<^verbatim>\<open>CharOffset\<close> 4, and one \<^verbatim>\<open>CursorDown\<close> puts the cursor on
  "Hello" at rune offset 4.
\<close>

theorem wide_glyph_offsets:
  assumes "10 \<le> w"
  shows
  "StringWidth RuneWidth (wide_lines ! 0) = 8 \<and>
   StringWidth RuneWidth (wide_lines ! 1) = 5 \<and>
   map_option (\<lambda>(li, c). CharOffset li) (LineInfo (StringWidth RuneWidth) RuneWidth (model_at w wide_lines 0 2)) =
     Some 4 \<and>
   cursor (CursorDown (StringWidth RuneWidth) RuneWidth (model_at w wide_lines 0 2)) = Some (1, 4)"
proof -
  have c0: "cache_coherent (StringWidth RuneWidth) RuneWidth (NewMemoCache maxLines)" by (rule NewMemoCache_coherent)
  from wide_down[OF assms c0] obtain c1
    where "CursorDown (StringWidth RuneWidth) RuneWidth (model_at w wide_lines 0 2) =
             Some (model_with c1 w wide_lines 1 4 4)"
    by (auto simp: model_at_with)
  then have down: "cursor (CursorDown (StringWidth RuneWidth) RuneWidth (model_at w wide_lines 0 2)) = Some (1, 4)"
    by (simp add: cursor_model_with)
  have info: "map_option (\<lambda>(li, c). CharOffset li)
      (LineInfo (StringWidth RuneWidth) RuneWidth (model_at w wide_lines 0 2)) = Some 4"
    using wide_info[OF assms c0] by (simp only: model_at_with)
  have "StringWidth RuneWidth (wide_lines ! 0) = 8" "StringWidth RuneWidth (wide_lines ! 1) = 5"
    by (simp_all add: wide_lines_def StringWidth_def RuneWidth_def runes_of_def)
  with info down show ?thesis by simp
qed

theorem wide_glyph_offsets_witness:
  "map_option (\<lambda>(li, c). CharOffset li) (LineInfo (StringWidth RuneWidth) RuneWidth (model_at 10 wide_lines 0 2)) =
     Some 4 \<and>
   cursor (CursorDown (StringWidth RuneWidth) RuneWidth (model_at 10 wide_lines 0 2)) = Some (1, 4)"
  using wide_glyph_offsets[of 10] by simp

text \<open>
  Claim C9 fails on the code: \<^verbatim>\<open>wordLeft\<close> on the empty buffer, cursor at row 0, column 0,
  never leaves its first loop, so it does not return.
\<close>

theorem wordLeft_never_returns_on_empty_buffer: "wordLeft (model_at 40 [[]] 0 0) = None"
  by (rule wordLeft_stuck) (simp add: stuck_at_start_def model_at_def)

end
